theory Spec2Isabelle
  imports Main "HOL-Library.Word"
begin

section \<open>The LWNL event queue (lwnl_evt_queue.c)\<close>

text \<open>
  A shallow embedding of the event queue that fans link events out to the registered
  listeners.  The C code keeps its state in two globals, \<open>g_queue\<close> and \<open>g_connected\<close>,
  and in heap nodes obtained from \<open>kmm_malloc\<close>.  The model passes all of it explicitly:

  \<^item> a pointer is an address of type \<open>nat\<close>; address \<open>0\<close> is \<open>NULL\<close>;
  \<^item> the heap is split by type: \<open>events\<close> maps the address of every live
    \<open>struct lwnl_event\<close> to its value, \<open>buffers\<close> maps the address of every live
    payload buffer to its bytes; \<open>kmm_free\<close> removes the address from the map;
  \<close>

text \<open>
  \<^item> an access through a pointer that is \<open>NULL\<close> or not live (undefined behaviour in C)
    makes the operation return \<open>None\<close>;
  \<^item> \<open>kmm_malloc\<close> is outside the file: every call site takes the address that the
    allocator returned as an argument (\<open>0\<close> when the allocation failed);
  \<^item> \<open>int8_t\<close>, \<open>int\<close> and \<open>uint32_t\<close> are words of 8, 32 and 32 bits; \<open>size_t\<close> is taken
    to be 32 bits wide, as on the ARM targets of the system;
  \<^item> the semaphore \<open>g_wm_sem\<close> serialises the operations; the model is the sequential
    behaviour of one operation at a time, and the debug counter \<open>g_totalevt\<close> (present
    only under \<open>CONFIG_DEBUG_LWNL80211_INFO\<close>) is left out.
\<close>

type_synonym addr = nat
type_synonym byte = "8 word"

subsection \<open>Data\<close>

text \<open>The event kinds named in the \<open>switch\<close> of \<open>lwnl_add_event\<close>.\<close>

datatype lwnl_cb_status =
    LWNL_STA_CONNECTED
  | LWNL_STA_CONNECT_FAILED
  | LWNL_STA_DISCONNECTED
  | LWNL_SOFTAP_STA_JOINED
  | LWNL_SOFTAP_STA_LEFT
  | LWNL_SCAN_FAILED
  | LWNL_SCAN_DONE
  | LWNL_UNKNOWN

text \<open>\<open>lwnl_cb_data\<close>: the kind, the payload pointer and the payload length.\<close>

record lwnl_cb_data =
  status :: lwnl_cb_status
  data :: addr
  data_len :: "32 word"

text \<open>\<open>struct lwnl_event\<close>; the member \<open>data\<close> of the source is \<open>evt_data\<close> here.\<close>

record lwnl_event =
  flink :: addr
  evt_data :: lwnl_cb_data
  refs :: "8 word"

text \<open>\<open>struct lwnl_queue\<close>: one listener slot.\<close>

record lwnl_queue =
  filep :: addr
  check_header :: "8 word"
  front :: addr
  rear :: addr

record lwnl_state =
  g_queue :: "lwnl_queue list"
  g_connected :: "32 word"
  events :: "addr \<rightharpoonup> lwnl_event"
  buffers :: "addr \<rightharpoonup> byte list"

subsection \<open>Searching the slot table\<close>

text \<open>
  \<open>lwnl_get_event\<close>, \<open>lwnl_add_listener\<close>, \<open>lwnl_remove_listener\<close> and
  \<open>lwnl_check_queue\<close> all run \<open>for (i = 0; i < LWNL_NPOLLWAITERS; i++)\<close> and leave the
  loop in the first iteration whose slot has the wanted \<open>filep\<close>.  \<open>find_filep f qs\<close> is
  the index of that slot, \<open>None\<close> when the loop runs to its end.  The table \<open>g_queue\<close>
  is the list of its \<open>LWNL_NPOLLWAITERS\<close> slots.
\<close>

fun find_filep :: "addr \<Rightarrow> lwnl_queue list \<Rightarrow> nat option" where
  "find_filep f [] = None"
| "find_filep f (q # qs) =
     (if filep q = f then Some 0 else map_option Suc (find_filep f qs))"

subsection \<open>Private functions\<close>

text \<open>
  The loop of \<open>_lwnl_add_event\<close> over the slots.  For every slot with a \<open>filep\<close> it
  stores \<open>g_connected\<close> into \<open>event->refs\<close> (an \<open>int\<close> narrowed to \<open>int8_t\<close>) and links
  the event: as the only node when \<open>front\<close> is \<open>NULL\<close>, behind \<open>rear\<close> otherwise.
\<close>

fun add_event_slots ::
  "addr \<Rightarrow> 32 word \<Rightarrow> lwnl_queue list \<Rightarrow> (addr \<rightharpoonup> lwnl_event) \<Rightarrow>
     (lwnl_queue list \<times> (addr \<rightharpoonup> lwnl_event)) option" where
  "add_event_slots event gc [] h = Some ([], h)"
| "add_event_slots event gc (q # qs) h =
     (if filep q \<noteq> 0 then
        (case h event of
           None \<Rightarrow> None
         | Some e \<Rightarrow>
             let h1 = h(event \<mapsto> e\<lparr>refs := scast gc\<rparr>) in
             if front q = 0 then
               map_option (\<lambda>(qs', h'). (q\<lparr>front := event, rear := event\<rparr> # qs', h'))
                 (add_event_slots event gc qs h1)
             else
               (case h1 (rear q) of
                  None \<Rightarrow> None
                | Some r \<Rightarrow>
                    map_option (\<lambda>(qs', h'). (q\<lparr>rear := event\<rparr> # qs', h'))
                      (add_event_slots event gc qs (h1(rear q \<mapsto> r\<lparr>flink := event\<rparr>)))))
      else
        map_option (\<lambda>(qs', h'). (q # qs', h')) (add_event_slots event gc qs h))"

text \<open>\<open>_lwnl_add_event\<close>: clear \<open>event->flink\<close>, run the loop, return 0.\<close>

definition priv_lwnl_add_event :: "addr \<Rightarrow> lwnl_state \<Rightarrow> (int \<times> lwnl_state) option" where
  "priv_lwnl_add_event event s =
     (case events s event of
        None \<Rightarrow> None
      | Some e \<Rightarrow>
          (case add_event_slots event (g_connected s) (g_queue s)
                  ((events s)(event \<mapsto> e\<lparr>flink := 0\<rparr>)) of
             None \<Rightarrow> None
           | Some (qs', h') \<Rightarrow> Some (0, s\<lparr>g_queue := qs', events := h'\<rparr>)))"

text \<open>
  \<open>_lwnl_remove_event\<close>: decrement \<open>refs\<close>; while it stays positive the node is kept,
  otherwise the payload (when there is one) and the node are freed.
\<close>

definition priv_lwnl_remove_event :: "addr \<Rightarrow> lwnl_state \<Rightarrow> (int \<times> lwnl_state) option" where
  "priv_lwnl_remove_event evt s =
     (case events s evt of
        None \<Rightarrow> None
      | Some e \<Rightarrow>
          let r = refs e - 1 in
          if 0 <s r then Some (0, s\<lparr>events := (events s)(evt \<mapsto> e\<lparr>refs := r\<rparr>)\<rparr>)
          else if data (evt_data e) \<noteq> 0 then
            (case buffers s (data (evt_data e)) of
               None \<Rightarrow> None
             | Some b \<Rightarrow>
                 Some (0, s\<lparr>events := (events s)(evt := None),
                            buffers := (buffers s)(data (evt_data e) := None)\<rparr>))
          else Some (0, s\<lparr>events := (events s)(evt := None)\<rparr>))"

text \<open>
  \<open>memcpy(dst + off, src, n)\<close> on byte lists; reading past \<open>src\<close> or writing past
  \<open>dst\<close> is undefined behaviour.
\<close>

definition memcpy_at :: "byte list \<Rightarrow> nat \<Rightarrow> byte list \<Rightarrow> nat \<Rightarrow> byte list option" where
  "memcpy_at dst off src n =
     (if off + n \<le> length dst \<and> n \<le> length src
      then Some (take off dst @ take n src @ drop (off + n) dst) else None)"

text \<open>
  The scan list \<open>trwifi_scan_list_s\<close> is owned by the caller; the model takes it as
  the list of its \<open>ap_info\<close> members, each the bytes of one \<open>trwifi_ap_scan_info_s\<close>.
  \<open>rsz\<close> is \<open>sizeof(trwifi_ap_scan_info_s)\<close>, a constant of a header that is not part of
  the sources at hand.  The first loop counts the items, the second copies item \<open>cnt\<close>
  to offset \<open>rsz * cnt\<close>.
\<close>

fun count_items :: "byte list list \<Rightarrow> nat \<Rightarrow> nat" where
  "count_items [] cnt = cnt"
| "count_items (item # rest) cnt = count_items rest (cnt + 1)"

fun copy_items :: "nat \<Rightarrow> byte list \<Rightarrow> byte list list \<Rightarrow> nat \<Rightarrow> byte list option" where
  "copy_items rsz buf [] cnt = Some buf"
| "copy_items rsz buf (item # rest) cnt =
     (case memcpy_at buf (rsz * cnt) item rsz of
        None \<Rightarrow> None
      | Some buf' \<Rightarrow> copy_items rsz buf' rest (cnt + 1))"

text \<open>
  \<open>_lwnl_copy_scan_info\<close>.  \<open>m\<close> is what \<open>kmm_malloc\<close> returned for the request of
  \<open>sizeof(trwifi_ap_scan_info_s) * total\<close> bytes (a \<open>size_t\<close> product).  The result is
  the returned \<open>int\<close>, the pointer stored in \<open>*buffer\<close> and the new state.  The fresh
  buffer starts zeroed in the model (its content is indeterminate in C).
\<close>

definition priv_lwnl_copy_scan_info ::
  "nat \<Rightarrow> addr \<Rightarrow> byte list list \<Rightarrow> lwnl_state \<Rightarrow> (int \<times> addr \<times> lwnl_state) option" where
  "priv_lwnl_copy_scan_info rsz m scan_list s =
     (let total = count_items scan_list 0;
          sz = (of_nat rsz * of_nat total :: 32 word)
      in if m = 0 then Some (- 1, 0, s)
         else
           (case copy_items rsz (replicate (unat sz) 0) scan_list 0 of
              None \<Rightarrow> None
            | Some b \<Rightarrow> Some (sint sz, m, s\<lparr>buffers := (buffers s)(m \<mapsto> b)\<rparr>)))"

subsection \<open>API\<close>

text \<open>
  The table as the loader leaves it (static storage is zeroed, nothing allocated),
  and \<open>lwnl_queue_initialize\<close>, which clears every slot and the listener count.
\<close>

definition boot :: "nat \<Rightarrow> lwnl_state" where
  "boot n =
     \<lparr>g_queue = replicate n \<lparr>filep = 0, check_header = 0, front = 0, rear = 0\<rparr>,
      g_connected = 0, events = Map.empty, buffers = Map.empty\<rparr>"

definition lwnl_queue_initialize :: "lwnl_state \<Rightarrow> lwnl_state" where
  "lwnl_queue_initialize s =
     s\<lparr>g_queue := map (\<lambda>q. q\<lparr>filep := 0, front := 0, rear := 0, check_header := 0\<rparr>) (g_queue s),
       g_connected := 0\<rparr>"

text \<open>
  \<open>lwnl_add_event\<close>.  \<open>m_evt\<close> is the result of the \<open>kmm_malloc\<close> for the node and
  \<open>m_out\<close> the result of the one inside \<open>_lwnl_copy_scan_info\<close> (used for
  \<open>LWNL_SCAN_DONE\<close> only).  \<open>link_event\<close> is the tail of the function from the call of
  \<open>_lwnl_add_event\<close> on, entered once the \<open>switch\<close> has filled in \<open>evt->data\<close>.
  On the \<open>default\<close> path the function returns \<open>-3\<close> without freeing the node and
  without having written \<open>evt->data\<close>; the model stores an all-zero \<open>data\<close> there.
\<close>

definition link_event :: "addr \<Rightarrow> lwnl_cb_data \<Rightarrow> lwnl_state \<Rightarrow> (int \<times> lwnl_state) option" where
  "link_event evt d s =
     (let s1 = s\<lparr>events := (events s)(evt \<mapsto> \<lparr>flink = 0, evt_data = d, refs = 0\<rparr>)\<rparr> in
      case priv_lwnl_add_event evt s1 of
        None \<Rightarrow> None
      | Some (res, s2) \<Rightarrow>
          if res < 0 then
            Some (- 2, s2\<lparr>events := (events s2)(evt := None),
                          buffers := (if data d \<noteq> 0 then (buffers s2)(data d := None)
                                      else buffers s2)\<rparr>)
          else Some (0, s2))"

definition lwnl_add_event ::
  "nat \<Rightarrow> lwnl_cb_status \<Rightarrow> byte list list \<Rightarrow> addr \<Rightarrow> addr \<Rightarrow> lwnl_state \<Rightarrow>
     (int \<times> lwnl_state) option" where
  "lwnl_add_event rsz type buffer m_evt m_out s =
     (if m_evt = 0 then Some (- 1, s)
      else
        (case type of
           LWNL_SCAN_DONE \<Rightarrow>
             (case priv_lwnl_copy_scan_info rsz m_out buffer s of
                None \<Rightarrow> None
              | Some (res, output, s1) \<Rightarrow>
                  if res < 0
                  then link_event m_evt \<lparr>status = LWNL_SCAN_FAILED, data = 0, data_len = 0\<rparr> s1
                  else link_event m_evt
                         \<lparr>status = LWNL_SCAN_DONE, data = output, data_len = word_of_int res\<rparr> s1)
         | LWNL_UNKNOWN \<Rightarrow>
             Some (- 3, s\<lparr>events := (events s)(m_evt \<mapsto>
                       \<lparr>flink = 0,
                        evt_data = \<lparr>status = LWNL_UNKNOWN, data = 0, data_len = 0\<rparr>,
                        refs = 0\<rparr>)\<rparr>)
         | _ \<Rightarrow> link_event m_evt \<lparr>status = type, data = 0, data_len = 0\<rparr> s))"

text \<open>
  The bytes of a 32-bit object in memory (little-endian).  The numeric values of the
  enumeration \<open>lwnl_cb_status\<close> come from a header that is not part of the sources at
  hand: \<open>lwnl_get_event\<close> takes them as the parameter \<open>code\<close>.
\<close>

definition word_bytes :: "32 word \<Rightarrow> byte list" where
  "word_bytes w = [ucast w, ucast (drop_bit 8 w), ucast (drop_bit 16 w), ucast (drop_bit 24 w)]"

text \<open>
  The source operand of \<open>memcpy(buf, evt->data.data, evt->data.data_len)\<close>: \<open>n\<close>
  bytes read from the payload buffer at \<open>p\<close>; no byte is read when \<open>n\<close> is 0.
\<close>

definition payload_bytes :: "lwnl_state \<Rightarrow> addr \<Rightarrow> nat \<Rightarrow> byte list option" where
  "payload_bytes s p n =
     (if n = 0 then Some []
      else
        (case buffers s p of
           None \<Rightarrow> None
         | Some b \<Rightarrow> if n \<le> length b then Some (take n b) else None))"

text \<open>
  The common tail of \<open>lwnl_get_event\<close>: \<open>g_queue[i].front = evt->flink\<close>, then
  \<open>_lwnl_remove_event(evt)\<close>, then \<open>return written\<close>.
\<close>

definition advance_front ::
  "nat \<Rightarrow> lwnl_queue \<Rightarrow> addr \<Rightarrow> lwnl_event \<Rightarrow> int \<Rightarrow> byte list \<Rightarrow> lwnl_state \<Rightarrow>
     (int \<times> byte list \<times> lwnl_state) option" where
  "advance_front i q p evt written out s =
     (case priv_lwnl_remove_event p (s\<lparr>g_queue := (g_queue s)[i := q\<lparr>front := flink evt\<rparr>]\<rparr>) of
        None \<Rightarrow> None
      | Some (r, s') \<Rightarrow> Some (written, out, s'))"

text \<open>
  \<open>lwnl_get_event filep buf len\<close>.  The result is the returned \<open>int\<close>, the bytes that
  were copied to the start of \<open>buf\<close> and the new state.  The header is
  \<open>sizeof(lwnl_cb_status) + sizeof(uint32_t)\<close> bytes, 8 with an enumeration of the size
  of an \<open>int\<close>.  \<open>len\<close> is an \<open>int\<close> in the source; both tests on it compare it with an
  unsigned operand, so it is converted to unsigned first, and the model takes its 32
  bits as a word.  The payload phase returns \<open>data_len\<close> converted from \<open>uint32_t\<close> to
  \<open>int\<close>.
\<close>

definition lwnl_get_event ::
  "(lwnl_cb_status \<Rightarrow> 32 word) \<Rightarrow> addr \<Rightarrow> 32 word \<Rightarrow> lwnl_state \<Rightarrow>
     (int \<times> byte list \<times> lwnl_state) option" where
  "lwnl_get_event code f len s =
     (case find_filep f (g_queue s) of
        None \<Rightarrow> Some (- 1, [], s)
      | Some i \<Rightarrow>
          let q = g_queue s ! i in
          if front q = 0 then Some (0, [], s)
          else
            (case events s (front q) of
               None \<Rightarrow> None
             | Some evt \<Rightarrow>
                 let d = evt_data evt in
                 if check_header q = 0 then
                   if len < 8 then Some (- 1, [], s)
                   else
                     let out = word_bytes (code (status d)) @ word_bytes (data_len d) in
                     if 0 < data_len d
                     then Some (8, out, s\<lparr>g_queue := (g_queue s)[i := q\<lparr>check_header := 1\<rparr>]\<rparr>)
                     else advance_front i q (front q) evt 8 out s
                 else
                   if len < data_len d then Some (- 1, [], s)
                   else
                     (case payload_bytes s (data d) (unat (data_len d)) of
                        None \<Rightarrow> None
                      | Some out \<Rightarrow>
                          advance_front i (q\<lparr>check_header := 0\<rparr>) (front q) evt
                            (sint (data_len d)) out s)))"

text \<open>
  \<open>lwnl_add_listener\<close>: the first slot without a \<open>filep\<close> takes the listener and
  \<open>g_connected\<close> goes up; \<open>-1\<close> when every slot is taken.
\<close>

definition lwnl_add_listener :: "addr \<Rightarrow> lwnl_state \<Rightarrow> int \<times> lwnl_state" where
  "lwnl_add_listener f s =
     (case find_filep 0 (g_queue s) of
        None \<Rightarrow> (- 1, s)
      | Some i \<Rightarrow>
          (0, s\<lparr>g_queue := (g_queue s)[i := (g_queue s ! i)\<lparr>filep := f\<rparr>],
                g_connected := g_connected s + 1\<rparr>))"

text \<open>
  The \<open>while (g_queue[i].front)\<close> loop of \<open>lwnl_remove_listener\<close>, started at
  \<open>front = p\<close>: it releases the node at the front and moves on to its \<open>flink\<close>, read
  before the release.  The loop only ends at a \<open>NULL\<close> link, so it is a partial
  function: \<open>None\<close> stands for an invalid access as well as for a walk that never ends.
\<close>

partial_function (option) release_from :: "addr \<Rightarrow> lwnl_state \<Rightarrow> lwnl_state option" where
  "release_from p s =
     (if p = 0 then Some s
      else
        (case events s p of
           None \<Rightarrow> None
         | Some evt \<Rightarrow>
             (case priv_lwnl_remove_event p s of
                None \<Rightarrow> None
              | Some (r, s') \<Rightarrow> release_from (flink evt) s')))"

declare release_from.simps [code]

text \<open>
  \<open>lwnl_remove_listener\<close>: the first slot with this \<open>filep\<close> is cleared, after the
  nodes still queued for it have been released; an unknown \<open>filep\<close> changes nothing.
  The function returns 0 on both paths.
\<close>

definition lwnl_remove_listener :: "addr \<Rightarrow> lwnl_state \<Rightarrow> (int \<times> lwnl_state) option" where
  "lwnl_remove_listener f s =
     (case find_filep f (g_queue s) of
        None \<Rightarrow> Some (0, s)
      | Some i \<Rightarrow>
          (case release_from (front (g_queue s ! i)) s of
             None \<Rightarrow> None
           | Some s' \<Rightarrow>
               Some (0, s'\<lparr>g_queue := (g_queue s)[i :=
                                \<lparr>filep = 0, check_header = 0, front = 0, rear = 0\<rparr>],
                            g_connected := g_connected s - 1\<rparr>)))"

text \<open>\<open>lwnl_check_queue\<close>: 1 when the listener's slot has a node at its front.\<close>

definition lwnl_check_queue :: "addr \<Rightarrow> lwnl_state \<Rightarrow> int" where
  "lwnl_check_queue f s =
     (case find_filep f (g_queue s) of
        None \<Rightarrow> 0
      | Some i \<Rightarrow> if front (g_queue s ! i) \<noteq> 0 then 1 else 0)"

text \<open>
  A numbering of the kinds for the examples: the order of the labels in the \<open>switch\<close>
  of \<open>lwnl_add_event\<close>.
\<close>

primrec example_code :: "lwnl_cb_status \<Rightarrow> 32 word" where
  "example_code LWNL_STA_CONNECTED = 0"
| "example_code LWNL_STA_CONNECT_FAILED = 1"
| "example_code LWNL_STA_DISCONNECTED = 2"
| "example_code LWNL_SOFTAP_STA_JOINED = 3"
| "example_code LWNL_SOFTAP_STA_LEFT = 4"
| "example_code LWNL_SCAN_FAILED = 5"
| "example_code LWNL_SCAN_DONE = 6"
| "example_code LWNL_UNKNOWN = 7"

subsection \<open>The queues as lists of nodes\<close>

text \<open>
  \<open>is_chain h p c\<close>: following \<open>flink\<close> from \<open>p\<close> in the heap \<open>h\<close> visits exactly the
  nodes \<open>c\<close>, all of them live, and then reaches \<open>NULL\<close>.
\<close>

fun is_chain :: "(addr \<rightharpoonup> lwnl_event) \<Rightarrow> addr \<Rightarrow> addr list \<Rightarrow> bool" where
  "is_chain h p [] = (p = 0)"
| "is_chain h p (a # as) =
     (p = a \<and> a \<noteq> 0 \<and> (case h a of None \<Rightarrow> False | Some e \<Rightarrow> is_chain h (flink e) as))"

definition first_of :: "addr list \<Rightarrow> addr" where
  "first_of c = (case c of [] \<Rightarrow> 0 | a # as \<Rightarrow> a)"

text \<open>The number of queues, out of \<open>cs\<close>, that hold the node \<open>a\<close>.\<close>

definition holders :: "addr list list \<Rightarrow> addr \<Rightarrow> nat" where
  "holders cs a = length (filter (\<lambda>c. a \<in> set c) cs)"

text \<open>The number of slots that have a listener.\<close>

definition occupied :: "lwnl_queue list \<Rightarrow> nat" where
  "occupied qs = length (filter (\<lambda>q. filep q \<noteq> 0) qs)"

text \<open>A payload pointer is \<open>NULL\<close> with length 0, or a live buffer of \<open>data_len\<close> bytes.\<close>

definition payload_ok :: "(addr \<rightharpoonup> byte list) \<Rightarrow> lwnl_cb_data \<Rightarrow> bool" where
  "payload_ok b d =
     (if data d = 0 then data_len d = 0
      else (case b (data d) of None \<Rightarrow> False | Some bs \<Rightarrow> length bs = unat (data_len d)))"

text \<open>
  The heap part of the invariant, for the queues \<open>cs\<close> (one per slot): every queue is a
  chain of live nodes; the non-empty queues end in the same node; the reference count
  of every live node is the number of queues that hold it; payloads are live, of the
  recorded length and not shared; the count fits \<open>int8_t\<close>.
\<close>

definition heap_ok ::
  "(addr \<rightharpoonup> lwnl_event) \<Rightarrow> (addr \<rightharpoonup> byte list) \<Rightarrow> addr list list \<Rightarrow> bool" where
  "heap_ok h b cs \<longleftrightarrow>
     (\<forall>c\<in>set cs. is_chain h (first_of c) c) \<and>
     (\<forall>c\<in>set cs. \<forall>c'\<in>set cs. c \<noteq> [] \<longrightarrow> c' \<noteq> [] \<longrightarrow> last c = last c') \<and>
     (\<forall>a e. h a = Some e \<longrightarrow>
        sint (refs e) = int (holders cs a) \<and> payload_ok b (evt_data e)) \<and>
     (\<forall>a a' e e'. h a = Some e \<longrightarrow> h a' = Some e' \<longrightarrow> a \<noteq> a' \<longrightarrow>
        data (evt_data e) \<noteq> 0 \<longrightarrow> data (evt_data e) \<noteq> data (evt_data e')) \<and>
     length cs \<le> 127"

text \<open>
  A slot and its queue: \<open>front\<close> is the first node; a non-empty queue belongs to a
  listener and \<open>rear\<close> is its last node; \<open>check_header\<close> is 0, or it is 1 and the
  first node has a payload.
\<close>

definition slot_ok :: "(addr \<rightharpoonup> lwnl_event) \<Rightarrow> lwnl_queue \<Rightarrow> addr list \<Rightarrow> bool" where
  "slot_ok h q c \<longleftrightarrow>
     front q = first_of c \<and>
     (c \<noteq> [] \<longrightarrow> filep q \<noteq> 0 \<and> rear q = last c) \<and>
     (check_header q = 0 \<or>
      (check_header q = 1 \<and> c \<noteq> [] \<and>
       (case h (first_of c) of None \<Rightarrow> False | Some e \<Rightarrow> data_len (evt_data e) \<noteq> 0)))"

definition queue_inv :: "lwnl_state \<Rightarrow> addr list list \<Rightarrow> bool" where
  "queue_inv s cs \<longleftrightarrow>
     heap_ok (events s) (buffers s) cs \<and>
     list_all2 (slot_ok (events s)) (g_queue s) cs \<and>
     sint (g_connected s) = int (occupied (g_queue s))"

subsection \<open>The effect of releasing and of linking, in closed form\<close>

text \<open>
  The state after \<open>_lwnl_remove_event\<close> took one of \<open>k\<close> references to the node \<open>e\<close> at
  \<open>p\<close>: the last reference frees the node and its payload, any other one only lowers
  the count.
\<close>

definition released :: "nat \<Rightarrow> addr \<Rightarrow> lwnl_event \<Rightarrow> lwnl_state \<Rightarrow> lwnl_state" where
  "released k p e s =
     (if k = 1 then
        s\<lparr>events := (events s)(p := None),
          buffers := (if data (evt_data e) \<noteq> 0 then (buffers s)(data (evt_data e) := None)
                      else buffers s)\<rparr>
      else s\<lparr>events := (events s)(p \<mapsto> e\<lparr>refs := refs e - 1\<rparr>)\<rparr>)"

text \<open>
  \<open>survives s s'\<close>: every node that is live in \<open>s'\<close> was live in \<open>s\<close>, with the same
  link, the same \<open>data\<close> and the same payload bytes.
\<close>

definition survives :: "lwnl_state \<Rightarrow> lwnl_state \<Rightarrow> bool" where
  "survives s s' \<longleftrightarrow>
     (\<forall>a e'. events s' a = Some e' \<longrightarrow>
        (\<exists>e. events s a = Some e \<and> evt_data e' = evt_data e \<and> flink e' = flink e \<and>
             buffers s' (data (evt_data e)) = buffers s (data (evt_data e))))"

text \<open>
  What the loop of \<open>_lwnl_add_event\<close> does to one slot and to the heap, when every
  non-empty queue of a listener has the same \<open>rear\<close> node \<open>L\<close>; and the queues after the
  new node \<open>m\<close> went to every listener.
\<close>

definition link_slot :: "addr \<Rightarrow> lwnl_queue \<Rightarrow> lwnl_queue" where
  "link_slot event q =
     (if filep q \<noteq> 0
      then (if front q = 0 then q\<lparr>front := event, rear := event\<rparr> else q\<lparr>rear := event\<rparr>)
      else q)"

definition linked_heap ::
  "addr \<Rightarrow> 32 word \<Rightarrow> addr \<Rightarrow> lwnl_queue list \<Rightarrow> (addr \<rightharpoonup> lwnl_event) \<Rightarrow>
     (addr \<rightharpoonup> lwnl_event)" where
  "linked_heap event gc L qs h =
     (if \<exists>q\<in>set qs. filep q \<noteq> 0 then
        (let h1 = (case h event of None \<Rightarrow> h | Some E \<Rightarrow> h(event \<mapsto> E\<lparr>refs := scast gc\<rparr>)) in
         if \<exists>q\<in>set qs. filep q \<noteq> 0 \<and> front q \<noteq> 0
         then (case h1 L of None \<Rightarrow> h1 | Some EL \<Rightarrow> h1(L \<mapsto> EL\<lparr>flink := event\<rparr>))
         else h1)
      else h)"

definition appended :: "lwnl_queue list \<Rightarrow> addr list list \<Rightarrow> addr \<Rightarrow> addr list list" where
  "appended qs cs m = map (\<lambda>(q, c). if filep q \<noteq> 0 then c @ [m] else c) (zip qs cs)"

text \<open>
  \<open>keeps s cs s' cs'\<close>: the step from \<open>s\<close> (queues \<open>cs\<close>) to \<open>s'\<close> (queues \<open>cs'\<close>) destroys
  nothing: every live node stays live with the same \<open>data\<close>, the same payload bytes and
  the same number of holders.
\<close>

definition keeps :: "lwnl_state \<Rightarrow> addr list list \<Rightarrow> lwnl_state \<Rightarrow> addr list list \<Rightarrow> bool" where
  "keeps s cs s' cs' \<longleftrightarrow>
     (\<forall>a e. events s a = Some e \<longrightarrow>
        (\<exists>e'. events s' a = Some e' \<and> evt_data e' = evt_data e) \<and>
        holders cs' a = holders cs a \<and>
        buffers s' (data (evt_data e)) = buffers s (data (evt_data e)))"

text \<open>
  \<open>frees_rel s cs s' cs'\<close>: in the step from \<open>s\<close> to \<open>s'\<close> a live node is destroyed exactly
  when its number of holders goes from positive to zero, its payload goes with it, and
  the payload of a node that stays is untouched.
\<close>

definition frees_rel :: "lwnl_state \<Rightarrow> addr list list \<Rightarrow> lwnl_state \<Rightarrow> addr list list \<Rightarrow> bool" where
  "frees_rel s cs s' cs' \<longleftrightarrow>
     (\<forall>a e. events s a = Some e \<longrightarrow>
        ((events s' a = None) = (0 < holders cs a \<and> holders cs' a = 0)) \<and>
        (events s' a = None \<longrightarrow> data (evt_data e) \<noteq> 0 \<longrightarrow>
           buffers s' (data (evt_data e)) = None) \<and>
        (events s' a \<noteq> None \<longrightarrow>
           buffers s' (data (evt_data e)) = buffers s (data (evt_data e))))"

text \<open>
  The same on the states alone.  \<open>in_queue s i a\<close>: the chain that starts at the \<open>front\<close>
  of slot \<open>i\<close> holds the node \<open>a\<close>; \<open>held s a\<close>: the number of slots whose chain holds
  \<open>a\<close>; \<open>frees_unheld s s'\<close>: from \<open>s\<close> to \<open>s'\<close> a live node is destroyed exactly when the
  number of slots holding it goes from positive to zero, together with its payload, and
  the payload of a node that stays is untouched.
\<close>

definition in_queue :: "lwnl_state \<Rightarrow> nat \<Rightarrow> addr \<Rightarrow> bool" where
  "in_queue s i a \<longleftrightarrow> (\<exists>c. is_chain (events s) (front (g_queue s ! i)) c \<and> a \<in> set c)"

definition held :: "lwnl_state \<Rightarrow> addr \<Rightarrow> nat" where
  "held s a = card {i. i < length (g_queue s) \<and> in_queue s i a}"

definition frees_unheld :: "lwnl_state \<Rightarrow> lwnl_state \<Rightarrow> bool" where
  "frees_unheld s s' \<longleftrightarrow>
     (\<forall>a e. events s a = Some e \<longrightarrow>
        ((events s' a = None) = (0 < held s a \<and> held s' a = 0)) \<and>
        (events s' a = None \<longrightarrow> data (evt_data e) \<noteq> 0 \<longrightarrow>
           buffers s' (data (evt_data e)) = None) \<and>
        (events s' a \<noteq> None \<longrightarrow>
           buffers s' (data (evt_data e)) = buffers s (data (evt_data e))))"

subsection \<open>Reachable states\<close>

text \<open>
  \<open>fresh s m\<close>: the allocator may hand out \<open>m\<close>, no live object is at that address.
  The states reachable with \<open>n\<close> slots start at \<open>lwnl_queue_initialize\<close> and follow
  the API calls.  A \<open>filep\<close> passed to the listener calls is a real file pointer, never
  \<open>NULL\<close>; the addresses given to \<open>lwnl_add_event\<close> are what \<open>kmm_malloc\<close> can return:
  \<open>NULL\<close> or fresh, and two different blocks for the two calls.
\<close>

definition fresh :: "lwnl_state \<Rightarrow> addr \<Rightarrow> bool" where
  "fresh s m \<longleftrightarrow> events s m = None \<and> buffers s m = None"

definition malloc_ok :: "lwnl_state \<Rightarrow> addr \<Rightarrow> addr \<Rightarrow> bool" where
  "malloc_ok s m_evt m_out \<longleftrightarrow>
     (m_evt = 0 \<or> fresh s m_evt) \<and> (m_out = 0 \<or> (fresh s m_out \<and> m_out \<noteq> m_evt))"

inductive reachable :: "nat \<Rightarrow> lwnl_state \<Rightarrow> bool" for n :: nat where
  reach_init: "reachable n (lwnl_queue_initialize (boot n))"
| reach_add_listener:
    "reachable n s \<Longrightarrow> f \<noteq> 0 \<Longrightarrow> lwnl_add_listener f s = (r, s') \<Longrightarrow> reachable n s'"
| reach_remove_listener:
    "reachable n s \<Longrightarrow> f \<noteq> 0 \<Longrightarrow> lwnl_remove_listener f s = Some (r, s') \<Longrightarrow>
       reachable n s'"
| reach_get_event:
    "reachable n s \<Longrightarrow> lwnl_get_event code f len s = Some (r, out, s') \<Longrightarrow> reachable n s'"
| reach_add_event:
    "reachable n s \<Longrightarrow> malloc_ok s m_evt m_out \<Longrightarrow>
       lwnl_add_event rsz type buffer m_evt m_out s = Some (r, s') \<Longrightarrow> reachable n s'"

subsection \<open>Runs and what a listener reads\<close>

text \<open>
  A run is a list of API calls.  \<open>apply_op\<close> makes one call and returns the bytes that
  the call copied to its caller's buffer (none for a call that is not a read) and the
  new state.  \<open>observe rsz code f ops s\<close> makes the calls \<open>ops\<close> from \<open>s\<close> on and collects
  what the reads of listener \<open>f\<close> copied out, one entry per read that copied something.
\<close>

datatype op =
    Emit lwnl_cb_status "byte list list" addr addr
  | Read addr "32 word"
  | Register addr
  | Deregister addr

fun apply_op ::
  "nat \<Rightarrow> (lwnl_cb_status \<Rightarrow> 32 word) \<Rightarrow> op \<Rightarrow> lwnl_state \<Rightarrow> (byte list \<times> lwnl_state) option" where
  "apply_op rsz code (Emit type buffer m_evt m_out) s =
     map_option (\<lambda>(r, s'). ([], s')) (lwnl_add_event rsz type buffer m_evt m_out s)"
| "apply_op rsz code (Read f len) s =
     map_option (\<lambda>(r, out, s'). (out, s')) (lwnl_get_event code f len s)"
| "apply_op rsz code (Register f) s = Some ([], snd (lwnl_add_listener f s))"
| "apply_op rsz code (Deregister f) s =
     map_option (\<lambda>(r, s'). ([], s')) (lwnl_remove_listener f s)"

fun obs :: "addr \<Rightarrow> op \<Rightarrow> byte list \<Rightarrow> byte list list" where
  "obs f (Read g len) out = (if g = f \<and> out \<noteq> [] then [out] else [])"
| "obs f oper out = []"

fun observe ::
  "nat \<Rightarrow> (lwnl_cb_status \<Rightarrow> 32 word) \<Rightarrow> addr \<Rightarrow> op list \<Rightarrow> lwnl_state \<Rightarrow>
     (byte list list \<times> lwnl_state) option" where
  "observe rsz code f [] s = Some ([], s)"
| "observe rsz code f (oper # ops) s =
     (case apply_op rsz code oper s of
        None \<Rightarrow> None
      | Some (out, s') \<Rightarrow>
          (case observe rsz code f ops s' of
             None \<Rightarrow> None
           | Some (outs, s'') \<Rightarrow> Some (obs f oper out @ outs, s'')))"

text \<open>
  The calls that a run may make while listener \<open>f\<close> stays registered: an emit gets
  its addresses from the allocator, and its scan list, when it is copied, is a list of
  records of \<open>rsz\<close> bytes whose total size fits an \<open>int\<close>; the other listeners come and go
  with a \<open>filep\<close> that is neither \<open>NULL\<close> nor \<open>f\<close>; anyone reads with any buffer size.  The
  conditions on a call are checked in the state the call starts from.
\<close>

fun op_ok :: "nat \<Rightarrow> addr \<Rightarrow> lwnl_state \<Rightarrow> op \<Rightarrow> bool" where
  "op_ok rsz f s (Emit type buffer m_evt m_out) =
     (malloc_ok s m_evt m_out \<and>
      (if type = LWNL_SCAN_DONE \<and> m_evt \<noteq> 0 \<and> m_out \<noteq> 0
       then list_all (\<lambda>x. length x = rsz) buffer \<and> rsz * length buffer < 2 ^ 31
       else True))"
| "op_ok rsz f s (Read g len) = True"
| "op_ok rsz f s (Register g) = (g \<noteq> 0 \<and> g \<noteq> f)"
| "op_ok rsz f s (Deregister g) = (g \<noteq> 0 \<and> g \<noteq> f)"

fun valid_run ::
  "nat \<Rightarrow> (lwnl_cb_status \<Rightarrow> 32 word) \<Rightarrow> addr \<Rightarrow> op list \<Rightarrow> lwnl_state \<Rightarrow> bool" where
  "valid_run rsz code f [] s = True"
| "valid_run rsz code f (oper # ops) s =
     (op_ok rsz f s oper \<and>
      (case apply_op rsz code oper s of
         None \<Rightarrow> True
       | Some (out, s') \<Rightarrow> valid_run rsz code f ops s'))"

text \<open>
  The events that a call emits (kind and payload bytes): none for a call that is not
  an emit, for an emit whose node allocation failed and for a kind that
  \<open>lwnl_add_event\<close> rejects; \<open>LWNL_SCAN_FAILED\<close> without payload for a scan result whose
  buffer allocation failed.  \<open>wire code ev\<close> is what a listener reads for one event:
  the header of 8 bytes, then the payload if it is not empty.
\<close>

fun emitted :: "op \<Rightarrow> (lwnl_cb_status \<times> byte list) list" where
  "emitted (Emit type buffer m_evt m_out) =
     (if m_evt = 0 \<or> type = LWNL_UNKNOWN then []
      else if type = LWNL_SCAN_DONE
      then (if m_out = 0 then [(LWNL_SCAN_FAILED, [])] else [(LWNL_SCAN_DONE, concat buffer)])
      else [(type, [])])"
| "emitted oper = []"

definition wire :: "(lwnl_cb_status \<Rightarrow> 32 word) \<Rightarrow> lwnl_cb_status \<times> byte list \<Rightarrow> byte list list" where
  "wire code ev =
     (word_bytes (code (fst ev)) @ word_bytes (of_nat (length (snd ev)))) #
     (if snd ev = [] then [] else [snd ev])"

definition wires :: "(lwnl_cb_status \<Rightarrow> 32 word) \<Rightarrow> op list \<Rightarrow> byte list list" where
  "wires code ops = concat (map (wire code) (concat (map emitted ops)))"

text \<open>
  What the heap holds for a node, as a listener will read it (\<open>msgs\<close>), and what is
  still to be read from a slot \<open>q\<close> with the queue \<open>c\<close> (\<open>owed\<close>): the header of the first
  node is left out when it has been read already.
\<close>

definition msgs :: "(lwnl_cb_status \<Rightarrow> 32 word) \<Rightarrow> lwnl_state \<Rightarrow> addr \<Rightarrow> byte list list" where
  "msgs code s a =
     (case events s a of
        None \<Rightarrow> []
      | Some e \<Rightarrow>
          (word_bytes (code (status (evt_data e))) @ word_bytes (data_len (evt_data e))) #
          (if data_len (evt_data e) = 0 then []
           else [case buffers s (data (evt_data e)) of None \<Rightarrow> [] | Some b \<Rightarrow> b]))"

definition owed ::
  "(lwnl_cb_status \<Rightarrow> 32 word) \<Rightarrow> lwnl_state \<Rightarrow> lwnl_queue \<Rightarrow> addr list \<Rightarrow> byte list list" where
  "owed code s q c =
     (case c of
        [] \<Rightarrow> []
      | a # rest \<Rightarrow>
          (if check_header q = 0 then msgs code s a else tl (msgs code s a)) @
          concat (map (msgs code s) rest))"

text \<open>\<open>tracks f i s cs\<close>: the invariant holds and the reads of listener \<open>f\<close> go to slot \<open>i\<close>.\<close>

definition tracks :: "addr \<Rightarrow> nat \<Rightarrow> lwnl_state \<Rightarrow> addr list list \<Rightarrow> bool" where
  "tracks f i s cs \<longleftrightarrow> queue_inv s cs \<and> f \<noteq> 0 \<and> find_filep f (g_queue s) = Some i"

section \<open>Lemmas\<close>

subsection \<open>Signed words in range\<close>

lemma sint_dec8: "0 < sint (x :: 8 word) \<Longrightarrow> sint (x - 1) = sint x - 1"
  using sint_lt[of x] by (simp add: sint_word_ariths signed_take_bit_int_eq_self)

lemma sint_inc32: "0 \<le> sint (x :: 32 word) \<Longrightarrow> sint x \<le> 127 \<Longrightarrow> sint (x + 1) = sint x + 1"
  by (simp add: sint_word_ariths signed_take_bit_int_eq_self)

lemma sint_dec32: "0 < sint (x :: 32 word) \<Longrightarrow> sint (x - 1) = sint x - 1"
  using sint_lt[of x] by (simp add: sint_word_ariths signed_take_bit_int_eq_self)

lemma sint_scast8:
  assumes "0 \<le> sint (x :: 32 word)" "sint x \<le> 127"
  shows "sint (scast x :: 8 word) = sint x"
proof -
  have "sint (scast x :: 8 word) = sint (word_of_int (sint x) :: 8 word)"
    by (simp only: scast_eq)
  also have "\<dots> = signed_take_bit 7 (sint x)"
    by (simp only: sint_sbintrunc') simp
  also have "\<dots> = sint x"
    using assms by (intro signed_take_bit_int_eq_self) simp_all
  finally show ?thesis .
qed

subsection \<open>Chains\<close>

lemma is_chain_first: "is_chain h p c \<Longrightarrow> p = first_of c"
  by (cases c) (simp_all add: first_of_def)

lemma is_chain_cong:
  "(\<And>a. a \<in> set c \<Longrightarrow> map_option flink (h' a) = map_option flink (h a)) \<Longrightarrow>
     is_chain h' p c = is_chain h p c"
proof (induction c arbitrary: p)
  case Nil
  then show ?case by simp
next
  case (Cons a c)
  have eq: "map_option flink (h' a) = map_option flink (h a)"
    using Cons.prems by simp
  have ih: "\<And>p. is_chain h' p c = is_chain h p c"
    using Cons.IH Cons.prems by simp
  show ?case
    using eq by (cases "h a"; cases "h' a") (auto simp: ih)
qed

lemma is_chain_unique: "is_chain h p c \<Longrightarrow> is_chain h p c' \<Longrightarrow> c = c'"
proof (induction c arbitrary: p c')
  case Nil
  then show ?case by (cases c') auto
next
  case (Cons a c)
  then show ?case by (cases c') (auto split: option.splits)
qed

lemma is_chain_live: "is_chain h p c \<Longrightarrow> a \<in> set c \<Longrightarrow> \<exists>e. h a = Some e"
  by (induction c arbitrary: p) (auto split: option.splits)

lemma is_chain_suffix:
  "is_chain h p (xs @ a # ys) \<Longrightarrow> is_chain h a (a # ys)"
proof (induction xs arbitrary: p)
  case Nil
  then show ?case by simp
next
  case (Cons x xs)
  then obtain e where "h x = Some e" "is_chain h (flink e) (xs @ a # ys)"
    by (auto split: option.splits)
  then show ?case using Cons.IH by blast
qed

lemma is_chain_head_notin:
  assumes "is_chain h a (a # c)"
  shows "a \<notin> set c"
proof
  assume "a \<in> set c"
  then obtain xs ys where c: "c = xs @ a # ys"
    by (meson split_list)
  have "is_chain h a (a # ys)"
    using assms is_chain_suffix[of h a "a # xs" a ys] by (simp add: c)
  then have "a # c = a # ys"
    using assms is_chain_unique by blast
  then show False by (simp add: c)
qed

lemma is_chain_distinct: "is_chain h p c \<Longrightarrow> distinct c"
proof (induction c arbitrary: p)
  case Nil
  then show ?case by simp
next
  case (Cons a c)
  then have "a \<notin> set c"
    using is_chain_head_notin[of h a c] by auto
  moreover have "distinct c"
    using Cons by (auto split: option.splits)
  ultimately show ?case by simp
qed

lemma is_chain_tl:
  "is_chain h p (a # c) \<Longrightarrow> \<exists>e. h a = Some e \<and> flink e = first_of c \<and> is_chain h (first_of c) c"
proof -
  assume "is_chain h p (a # c)"
  then obtain e where e: "h a = Some e" "is_chain h (flink e) c"
    by (auto split: option.splits)
  from e(2) have "flink e = first_of c" by (rule is_chain_first)
  then show ?thesis using e by simp
qed

lemma is_chain_not_null: "is_chain h p c \<Longrightarrow> 0 \<notin> set c"
  by (induction c arbitrary: p) (auto split: option.splits)

subsection \<open>Counting holders\<close>

lemma filter_length_update:
  "i < length xs \<Longrightarrow>
     length (filter P (xs[i := y])) + (if P (xs ! i) then 1 else 0) =
     length (filter P xs) + (if P y then 1 else 0)"
proof (induction xs arbitrary: i)
  case Nil
  then show ?case by simp
next
  case (Cons x xs)
  show ?case
  proof (cases i)
    case 0
    then show ?thesis by simp
  next
    case (Suc j)
    then have "j < length xs" using Cons.prems by simp
    from Cons.IH[OF this] show ?thesis using Suc by simp
  qed
qed

lemma holders_pop:
  assumes "i < length cs" and "cs ! i = p # rest" and "p \<notin> set rest"
  shows "holders (cs[i := rest]) a = (if a = p then holders cs a - 1 else holders cs a)"
    and "1 \<le> holders cs p"
proof -
  have "length (filter (\<lambda>c. a \<in> set c) (cs[i := rest])) + (if a \<in> set (cs ! i) then 1 else 0) =
        length (filter (\<lambda>c. a \<in> set c) cs) + (if a \<in> set rest then 1 else 0)"
    using assms(1) by (rule filter_length_update)
  then show "holders (cs[i := rest]) a = (if a = p then holders cs a - 1 else holders cs a)"
    using assms(2,3) by (auto simp: holders_def split: if_splits)
  have "p # rest \<in> set cs" using assms(1,2) nth_mem[of i cs] by simp
  moreover have "p \<in> set (p # rest)" by simp
  ultimately have "\<exists>c\<in>set cs. p \<in> set c" by blast
  then have "filter (\<lambda>c. p \<in> set c) cs \<noteq> []"
    by (simp add: filter_empty_conv)
  then show "1 \<le> holders cs p"
    by (simp add: holders_def Suc_le_eq)
qed

lemma holders_zero: "holders cs a = 0 \<Longrightarrow> c \<in> set cs \<Longrightarrow> a \<notin> set c"
  by (auto simp: holders_def filter_empty_conv)

lemma holders_pos: "c \<in> set cs \<Longrightarrow> a \<in> set c \<Longrightarrow> 0 < holders cs a"
  using holders_zero[of cs a c] by auto

lemma holders_le: "holders cs a \<le> length cs"
  by (simp add: holders_def)

subsection \<open>Releasing the first node of a queue\<close>

lemma heap_ok_chain:
  "heap_ok h b cs \<Longrightarrow> i < length cs \<Longrightarrow> is_chain h (first_of (cs ! i)) (cs ! i)"
  by (simp add: heap_ok_def)

lemma heap_ok_refs:
  "heap_ok h b cs \<Longrightarrow> h a = Some e \<Longrightarrow> sint (refs e) = int (holders cs a)"
  by (simp add: heap_ok_def)

lemma heap_ok_payload:
  "heap_ok h b cs \<Longrightarrow> h a = Some e \<Longrightarrow> payload_ok b (evt_data e)"
  by (simp add: heap_ok_def)

lemma heap_ok_unshared:
  "heap_ok h b cs \<Longrightarrow> h a = Some e \<Longrightarrow> h a' = Some e' \<Longrightarrow> a \<noteq> a' \<Longrightarrow>
     data (evt_data e) \<noteq> 0 \<Longrightarrow> data (evt_data e) \<noteq> data (evt_data e')"
  unfolding heap_ok_def by blast

lemma remove_event_first:
  assumes hok: "heap_ok (events s) (buffers s) cs"
    and i: "i < length cs" and ci: "cs ! i = p # rest"
  shows "\<exists>e. events s p = Some e \<and> flink e = first_of rest \<and>
           priv_lwnl_remove_event p s = Some (0, released (holders cs p) p e s)"
proof -
  have ch: "is_chain (events s) p (p # rest)"
    using heap_ok_chain[OF hok i] by (simp add: ci first_of_def)
  then obtain e where e: "events s p = Some e" "flink e = first_of rest"
    using is_chain_tl by blast
  have notin: "p \<notin> set rest" using ch by (rule is_chain_head_notin)
  have k1: "1 \<le> holders cs p" using holders_pop(2)[OF i ci notin] .
  have r: "sint (refs e) = int (holders cs p)" using heap_ok_refs[OF hok e(1)] .
  then have r1: "sint (refs e - 1) = int (holders cs p) - 1"
    using k1 sint_dec8[of "refs e"] by simp
  have pos: "(0 <s refs e - 1) = (holders cs p \<noteq> 1)"
    using r1 k1 by (auto simp: word_sless_alt)
  have pl: "data (evt_data e) \<noteq> 0 \<Longrightarrow> \<exists>bs. buffers s (data (evt_data e)) = Some bs"
    using heap_ok_payload[OF hok e(1)] by (auto simp: payload_ok_def split: option.splits)
  have "priv_lwnl_remove_event p s = Some (0, released (holders cs p) p e s)"
    using e pos pl by (auto simp: priv_lwnl_remove_event_def released_def Let_def)
  then show ?thesis using e by blast
qed

lemma in_set_update_cases:
  "c \<in> set (cs[i := x]) \<Longrightarrow> c = x \<or> c \<in> set cs"
  using set_update_subset_insert[of cs i x] by auto

lemma released_fields [simp]:
  "g_queue (released k p e s) = g_queue s"
  "g_connected (released k p e s) = g_connected s"
  by (simp_all add: released_def)

lemma released_events:
  "events (released k p e s) a =
     (if a = p then (if k = 1 then None else Some (e\<lparr>refs := refs e - 1\<rparr>)) else events s a)"
  by (simp add: released_def)

lemma released_buffers:
  "buffers (released k p e s) a =
     (if k = 1 \<and> data (evt_data e) \<noteq> 0 \<and> a = data (evt_data e) then None else buffers s a)"
  by (simp add: released_def)

lemma released_heap_ok:
  assumes hok: "heap_ok (events s) (buffers s) cs"
    and i: "i < length cs" and ci: "cs ! i = p # rest"
    and e: "events s p = Some e"
  shows "heap_ok (events (released (holders cs p) p e s))
           (buffers (released (holders cs p) p e s)) (cs[i := rest])"
proof -
  define k where "k = holders cs p"
  define s' where "s' = released k p e s"
  define cs' where "cs' = cs[i := rest]"
  have ch: "is_chain (events s) p (p # rest)"
    using heap_ok_chain[OF hok i] by (simp add: ci first_of_def)
  have notin: "p \<notin> set rest" using ch by (rule is_chain_head_notin)
  have hold: "\<And>a. holders cs' a = (if a = p then k - 1 else holders cs a)"
    unfolding cs'_def k_def using holders_pop(1)[OF i ci notin] by simp
  have k1: "1 \<le> k" unfolding k_def using holders_pop(2)[OF i ci notin] .
  have gone: "\<And>c. k = 1 \<Longrightarrow> c \<in> set cs' \<Longrightarrow> p \<notin> set c"
  proof -
    fix c assume "k = 1" "c \<in> set cs'"
    then show "p \<notin> set c" using holders_zero[of cs' p c] hold[of p] by simp
  qed
  have rest_chain: "is_chain (events s) (first_of rest) rest"
    using is_chain_tl[OF ch] by blast
  have old_chain: "\<And>c. c \<in> set cs' \<Longrightarrow> is_chain (events s) (first_of c) c"
  proof -
    fix c assume "c \<in> set cs'"
    then have "c = rest \<or> c \<in> set cs" unfolding cs'_def by (rule in_set_update_cases)
    then show "is_chain (events s) (first_of c) c"
      using rest_chain hok by (auto simp: heap_ok_def)
  qed
  have c1: "\<forall>c\<in>set cs'. is_chain (events s') (first_of c) c"
  proof
    fix c assume c: "c \<in> set cs'"
    have "is_chain (events s') (first_of c) c = is_chain (events s) (first_of c) c"
    proof (rule is_chain_cong)
      fix a assume "a \<in> set c"
      then show "map_option flink (events s' a) = map_option flink (events s a)"
        using gone[OF _ c] e by (auto simp: s'_def released_events)
    qed
    then show "is_chain (events s') (first_of c) c" using old_chain[OF c] by simp
  qed
  have last_old: "\<And>c. c \<in> set cs' \<Longrightarrow> c \<noteq> [] \<Longrightarrow> last c = last (p # rest)"
  proof -
    fix c assume c: "c \<in> set cs'" "c \<noteq> []"
    have mem: "p # rest \<in> set cs" using i ci nth_mem[of i cs] by simp
    from c(1) have "c = rest \<or> c \<in> set cs" unfolding cs'_def by (rule in_set_update_cases)
    then show "last c = last (p # rest)"
    proof
      assume "c = rest" then show ?thesis using c(2) by simp
    next
      assume "c \<in> set cs"
      then show ?thesis using hok mem c(2) unfolding heap_ok_def by blast
    qed
  qed
  have c2: "\<forall>c\<in>set cs'. \<forall>c'\<in>set cs'. c \<noteq> [] \<longrightarrow> c' \<noteq> [] \<longrightarrow> last c = last c'"
    using last_old by metis
  have c3: "\<forall>a e'. events s' a = Some e' \<longrightarrow>
              sint (refs e') = int (holders cs' a) \<and> payload_ok (buffers s') (evt_data e')"
  proof (intro allI impI)
    fix a e' assume a: "events s' a = Some e'"
    show "sint (refs e') = int (holders cs' a) \<and> payload_ok (buffers s') (evt_data e')"
    proof (cases "a = p")
      case True
      then have kn: "k \<noteq> 1" and e': "e' = e\<lparr>refs := refs e - 1\<rparr>"
        using a by (auto simp: s'_def released_events split: if_splits)
      have "sint (refs e) = int k" unfolding k_def using heap_ok_refs[OF hok e] .
      then have "sint (refs e - 1) = int k - 1" using k1 sint_dec8[of "refs e"] by simp
      then have r: "sint (refs e') = int (holders cs' a)"
        using True hold[of p] k1 e' by simp
      have "payload_ok (buffers s) (evt_data e)" using heap_ok_payload[OF hok e] .
      then have "payload_ok (buffers s') (evt_data e')"
        using kn e' by (simp add: payload_ok_def s'_def released_def)
      then show ?thesis using r by simp
    next
      case False
      then have ea: "events s a = Some e'"
        using a by (simp add: s'_def released_events)
      have r: "sint (refs e') = int (holders cs' a)"
        using heap_ok_refs[OF hok ea] hold[of a] False by simp
      have po: "payload_ok (buffers s) (evt_data e')" using heap_ok_payload[OF hok ea] .
      have "payload_ok (buffers s') (evt_data e')"
      proof (cases "data (evt_data e) \<noteq> 0 \<and> data (evt_data e') = data (evt_data e)")
        case True
        then have False using heap_ok_unshared[OF hok e ea] False by auto
        then show ?thesis ..
      next
        case False
        then show ?thesis
          using po by (auto simp: payload_ok_def released_buffers s'_def split: option.splits)
      qed
      then show ?thesis using r by simp
    qed
  qed
  have sub: "\<And>a e'. events s' a = Some e' \<Longrightarrow>
               \<exists>e0. events s a = Some e0 \<and> evt_data e' = evt_data e0"
    using e by (auto simp: s'_def released_events split: if_splits)
  have c4: "\<forall>a a' e1 e2. events s' a = Some e1 \<longrightarrow> events s' a' = Some e2 \<longrightarrow> a \<noteq> a' \<longrightarrow>
              data (evt_data e1) \<noteq> 0 \<longrightarrow> data (evt_data e1) \<noteq> data (evt_data e2)"
  proof (intro allI impI)
    fix a a' e1 e2
    assume h: "events s' a = Some e1" "events s' a' = Some e2" "a \<noteq> a'" "data (evt_data e1) \<noteq> 0"
    obtain f1 where f1: "events s a = Some f1" "evt_data e1 = evt_data f1" using sub[OF h(1)] by blast
    obtain f2 where f2: "events s a' = Some f2" "evt_data e2 = evt_data f2" using sub[OF h(2)] by blast
    show "data (evt_data e1) \<noteq> data (evt_data e2)"
      using heap_ok_unshared[OF hok f1(1) f2(1) h(3)] h(4) f1(2) f2(2) by simp
  qed
  have c5: "length cs' \<le> 127" using hok by (simp add: cs'_def heap_ok_def)
  have "heap_ok (events s') (buffers s') cs'"
    unfolding heap_ok_def using c1 c2 c3 c4 c5 by blast
  then show ?thesis by (simp add: s'_def cs'_def k_def)
qed

lemma survives_refl: "survives s s"
  by (simp add: survives_def)

lemma survives_trans: "survives s s' \<Longrightarrow> survives s' s'' \<Longrightarrow> survives s s''"
  unfolding survives_def by (metis (no_types, lifting))

lemma survives_queue [simp]:
  "survives (s\<lparr>g_queue := qs\<rparr>) s' = survives s s'"
  "survives s (s'\<lparr>g_queue := qs\<rparr>) = survives s s'"
  "survives (s\<lparr>g_connected := g\<rparr>) s' = survives s s'"
  "survives s (s'\<lparr>g_connected := g\<rparr>) = survives s s'"
  by (simp_all add: survives_def)

lemma released_survives:
  assumes hok: "heap_ok (events s) (buffers s) cs" and e: "events s p = Some e"
  shows "survives s (released k p e s)"
  unfolding survives_def
proof (intro allI impI)
  fix a e' assume a: "events (released k p e s) a = Some e'"
  show "\<exists>e0. events s a = Some e0 \<and> evt_data e' = evt_data e0 \<and> flink e' = flink e0 \<and>
          buffers (released k p e s) (data (evt_data e0)) = buffers s (data (evt_data e0))"
  proof (cases "a = p")
    case True
    then have "k \<noteq> 1" "e' = e\<lparr>refs := refs e - 1\<rparr>"
      using a by (auto simp: released_events split: if_splits)
    then show ?thesis using e True by (simp add: released_buffers)
  next
    case False
    then have ea: "events s a = Some e'" using a by (simp add: released_events)
    have "data (evt_data e) \<noteq> 0 \<Longrightarrow> data (evt_data e) \<noteq> data (evt_data e')"
      using heap_ok_unshared[OF hok e ea] False by auto
    then have "buffers (released k p e s) (data (evt_data e')) = buffers s (data (evt_data e'))"
      by (auto simp: released_buffers)
    then show ?thesis using ea by simp
  qed
qed

subsection \<open>The release loop\<close>

lemma release_from_chain:
  assumes "heap_ok (events s) (buffers s) cs" and "i < length cs" and "cs ! i = c"
  shows "\<exists>s'. release_from (first_of c) s = Some s' \<and>
           heap_ok (events s') (buffers s') (cs[i := []]) \<and>
           g_queue s' = g_queue s \<and> g_connected s' = g_connected s \<and> survives s s'"
  using assms
proof (induction c arbitrary: s cs)
  case Nil
  have "cs[i := []] = cs" using Nil.prems(2,3) by (metis list_update_id)
  moreover have "release_from (first_of []) s = Some s"
    by (subst release_from.simps) (simp add: first_of_def)
  ultimately show ?case using Nil.prems(1) survives_refl by auto
next
  case (Cons p rest)
  obtain e where e: "events s p = Some e" "flink e = first_of rest"
    and rm: "priv_lwnl_remove_event p s = Some (0, released (holders cs p) p e s)"
    using remove_event_first[OF Cons.prems(1,2,3)] by blast
  define s1 where "s1 = released (holders cs p) p e s"
  have hok1: "heap_ok (events s1) (buffers s1) (cs[i := rest])"
    unfolding s1_def using released_heap_ok[OF Cons.prems(1,2,3) e(1)] .
  have i1: "i < length (cs[i := rest])" using Cons.prems(2) by simp
  have c1: "cs[i := rest] ! i = rest" using Cons.prems(2) by simp
  obtain s' where s': "release_from (first_of rest) s1 = Some s'"
      "heap_ok (events s') (buffers s') (cs[i := rest, i := []])"
      "g_queue s' = g_queue s1" "g_connected s' = g_connected s1" "survives s1 s'"
    using Cons.IH[OF hok1 i1 c1] by blast
  have p0: "p \<noteq> 0"
    using heap_ok_chain[OF Cons.prems(1,2)] Cons.prems(3) by (simp add: first_of_def)
  have "release_from (first_of (p # rest)) s = release_from (flink e) s1"
    using e rm p0 by (subst release_from.simps) (simp add: first_of_def s1_def)
  then have r: "release_from (first_of (p # rest)) s = Some s'"
    using s'(1) e(2) by simp
  have sv: "survives s s'"
    using released_survives[OF Cons.prems(1) e(1)] s'(5) survives_trans
    unfolding s1_def by blast
  show ?case
    using r s'(2,3,4) sv by (simp add: s1_def)
qed

subsection \<open>Slots\<close>

lemma find_filep_Some:
  "find_filep f qs = Some i \<Longrightarrow>
     i < length qs \<and> filep (qs ! i) = f \<and> (\<forall>j<i. filep (qs ! j) \<noteq> f)"
proof (induction qs arbitrary: i)
  case Nil
  then show ?case by simp
next
  case (Cons q qs)
  show ?case
  proof (cases "filep q = f")
    case True
    then show ?thesis using Cons.prems by simp
  next
    case False
    then obtain k where k: "find_filep f qs = Some k" "i = Suc k"
      using Cons.prems by auto
    from Cons.IH[OF k(1)] show ?thesis
      using False k(2) by (auto simp: less_Suc_eq_0_disj)
  qed
qed

lemma find_filep_None: "(find_filep f qs = None) = (\<forall>q\<in>set qs. filep q \<noteq> f)"
  by (induction qs) auto

lemma find_filep_first:
  "i < length qs \<Longrightarrow> filep (qs ! i) = f \<Longrightarrow> (\<forall>j<i. filep (qs ! j) \<noteq> f) \<Longrightarrow>
     find_filep f qs = Some i"
proof (induction qs arbitrary: i)
  case Nil
  then show ?case by simp
next
  case (Cons q qs)
  show ?case
  proof (cases i)
    case 0
    then show ?thesis using Cons.prems by simp
  next
    case (Suc k)
    have "filep q \<noteq> f" using Cons.prems(3) Suc by auto
    moreover have "find_filep f qs = Some k"
      using Cons.prems Suc by (intro Cons.IH) auto
    ultimately show ?thesis using Suc by simp
  qed
qed

lemma first_of_in: "c \<noteq> [] \<Longrightarrow> first_of c \<in> set c"
  by (cases c) (simp_all add: first_of_def)

lemma slot_ok_survives:
  assumes "slot_ok (events s) q c" and "survives s s'"
    and "is_chain (events s') (first_of c) c"
  shows "slot_ok (events s') q c"
proof (cases "c = []")
  case True
  then show ?thesis using assms(1) by (simp add: slot_ok_def)
next
  case False
  then obtain e' where e': "events s' (first_of c) = Some e'"
    using is_chain_live[OF assms(3) first_of_in] by blast
  then obtain e where "events s (first_of c) = Some e" "evt_data e' = evt_data e"
    using assms(2) unfolding survives_def by blast
  then show ?thesis using assms(1) e' by (auto simp: slot_ok_def)
qed

lemma queue_inv_length: "queue_inv s cs \<Longrightarrow> length cs = length (g_queue s)"
  by (auto simp: queue_inv_def dest: list_all2_lengthD)

lemma queue_inv_slot:
  "queue_inv s cs \<Longrightarrow> i < length cs \<Longrightarrow> slot_ok (events s) (g_queue s ! i) (cs ! i)"
  by (auto simp: queue_inv_def dest: list_all2_nthD2)

lemma queue_inv_heap: "queue_inv s cs \<Longrightarrow> heap_ok (events s) (buffers s) cs"
  by (simp add: queue_inv_def)

text \<open>One slot and its queue change, the heap only shrinks: the invariant is kept.\<close>

lemma queue_inv_step:
  assumes inv: "queue_inv s cs" and i: "i < length cs"
    and hok: "heap_ok (events s') (buffers s') (cs[i := c'])"
    and sv: "survives s s'"
    and slot: "slot_ok (events s') q' c'"
    and qs: "g_queue s' = (g_queue s)[i := q']"
    and cnt: "sint (g_connected s') = int (occupied (g_queue s'))"
  shows "queue_inv s' (cs[i := c'])"
proof -
  have len: "length cs = length (g_queue s)" using inv by (rule queue_inv_length)
  have "list_all2 (slot_ok (events s')) ((g_queue s)[i := q']) (cs[i := c'])"
  proof (rule list_all2_all_nthI)
    show "length ((g_queue s)[i := q']) = length (cs[i := c'])" using len by simp
  next
    fix j assume j: "j < length ((g_queue s)[i := q'])"
    show "slot_ok (events s') ((g_queue s)[i := q'] ! j) (cs[i := c'] ! j)"
    proof (cases "j = i")
      case True
      then show ?thesis using slot i len by simp
    next
      case False
      have jl: "j < length cs" using j len by simp
      have old: "slot_ok (events s) (g_queue s ! j) (cs ! j)"
        using queue_inv_slot[OF inv jl] .
      have "is_chain (events s') (first_of (cs[i := c'] ! j)) (cs[i := c'] ! j)"
        using heap_ok_chain[OF hok] jl by simp
      then have "is_chain (events s') (first_of (cs ! j)) (cs ! j)" using False by simp
      from slot_ok_survives[OF old sv this] show ?thesis using False by simp
    qed
  qed
  then show ?thesis using hok cnt qs by (simp add: queue_inv_def)
qed

lemma occupied_update:
  "i < length qs \<Longrightarrow> (filep q \<noteq> 0) = (filep (qs ! i) \<noteq> 0) \<Longrightarrow>
     occupied (qs[i := q]) = occupied qs"
  using filter_length_update[of i qs "\<lambda>q. filep q \<noteq> 0" q] by (auto simp: occupied_def split: if_splits)

lemma occupied_le: "occupied qs \<le> length qs"
  by (simp add: occupied_def)

subsection \<open>The invariant at start and under the listener calls\<close>

lemma queue_inv_init:
  assumes "n \<le> 127"
  shows "queue_inv (lwnl_queue_initialize (boot n)) (replicate n [])"
proof -
  have "list_all2 (slot_ok Map.empty)
          (replicate n \<lparr>filep = 0, check_header = 0, front = 0, rear = 0\<rparr>) (replicate n [])"
    by (rule list_all2_all_nthI) (simp_all add: slot_ok_def first_of_def)
  then show ?thesis
    using assms
    by (simp add: queue_inv_def lwnl_queue_initialize_def boot_def heap_ok_def
        first_of_def occupied_def)
qed

lemma add_listener_inv:
  assumes inv: "queue_inv s cs" and f: "f \<noteq> 0"
  shows "queue_inv (snd (lwnl_add_listener f s)) cs"
proof (cases "find_filep 0 (g_queue s)")
  case None
  then show ?thesis using inv by (simp add: lwnl_add_listener_def)
next
  case (Some i)
  define q' where "q' = (g_queue s ! i)\<lparr>filep := f\<rparr>"
  define s' where "s' = s\<lparr>g_queue := (g_queue s)[i := q'], g_connected := g_connected s + 1\<rparr>"
  have res: "snd (lwnl_add_listener f s) = s'"
    using Some by (simp add: lwnl_add_listener_def s'_def q'_def)
  have len: "length cs = length (g_queue s)" using inv by (rule queue_inv_length)
  have i: "i < length cs" "filep (g_queue s ! i) = 0"
    using find_filep_Some[OF Some] len by simp_all
  have hok: "heap_ok (events s) (buffers s) cs" using inv by (rule queue_inv_heap)
  have "slot_ok (events s) (g_queue s ! i) (cs ! i)" using queue_inv_slot[OF inv i(1)] .
  then have slot: "slot_ok (events s') q' (cs ! i)"
    using f by (simp add: slot_ok_def q'_def s'_def)
  have "length (filter (\<lambda>q. filep q \<noteq> 0) ((g_queue s)[i := q'])) +
          (if filep (g_queue s ! i) \<noteq> 0 then 1 else 0) =
        length (filter (\<lambda>q. filep q \<noteq> 0) (g_queue s)) + (if filep q' \<noteq> 0 then 1 else 0)"
    using i(1) len by (intro filter_length_update) simp
  then have occ: "occupied ((g_queue s)[i := q']) = occupied (g_queue s) + 1"
    using i(2) f by (simp add: occupied_def q'_def)
  have g: "sint (g_connected s) = int (occupied (g_queue s))"
    using inv by (simp add: queue_inv_def)
  have "occupied (g_queue s) \<le> 127"
    using occupied_le[of "g_queue s"] len hok by (simp add: heap_ok_def)
  then have "sint (g_connected s + 1) = int (occupied (g_queue s)) + 1"
    using g sint_inc32[of "g_connected s"] by simp
  then have cnt: "sint (g_connected s') = int (occupied (g_queue s'))"
    using occ by (simp add: s'_def)
  have "queue_inv s' (cs[i := cs ! i])"
  proof (rule queue_inv_step[OF inv i(1) _ _ slot _ cnt])
    show "heap_ok (events s') (buffers s') (cs[i := cs ! i])" using hok by (simp add: s'_def)
    show "survives s s'" by (simp add: s'_def survives_def)
    show "g_queue s' = (g_queue s)[i := q']" by (simp add: s'_def)
  qed
  then show ?thesis using res by simp
qed

lemma remove_listener_inv:
  assumes inv: "queue_inv s cs" and f: "f \<noteq> 0"
  shows "\<exists>s'. lwnl_remove_listener f s = Some (0, s') \<and> survives s s' \<and>
           queue_inv s' (case find_filep f (g_queue s) of None \<Rightarrow> cs | Some i \<Rightarrow> cs[i := []])"
proof (cases "find_filep f (g_queue s)")
  case None
  then show ?thesis using inv survives_refl by (simp add: lwnl_remove_listener_def)
next
  case (Some i)
  have len: "length cs = length (g_queue s)" using inv by (rule queue_inv_length)
  have i: "i < length cs" "filep (g_queue s ! i) = f"
    using find_filep_Some[OF Some] len by simp_all
  have hok: "heap_ok (events s) (buffers s) cs" using inv by (rule queue_inv_heap)
  have fr: "front (g_queue s ! i) = first_of (cs ! i)"
    using queue_inv_slot[OF inv i(1)] by (simp add: slot_ok_def)
  obtain s1 where s1: "release_from (first_of (cs ! i)) s = Some s1"
      "heap_ok (events s1) (buffers s1) (cs[i := []])"
      "g_queue s1 = g_queue s" "g_connected s1 = g_connected s" "survives s s1"
    using release_from_chain[OF hok i(1) refl] by blast
  define q' where "q' = \<lparr>filep = 0, check_header = 0, front = 0, rear = 0\<rparr>"
  define s' where "s' = s1\<lparr>g_queue := (g_queue s)[i := q'], g_connected := g_connected s - 1\<rparr>"
  have res: "lwnl_remove_listener f s = Some (0, s')"
    using Some s1(1) fr by (simp add: lwnl_remove_listener_def s'_def q'_def)
  have "length (filter (\<lambda>q. filep q \<noteq> 0) ((g_queue s)[i := q'])) +
          (if filep (g_queue s ! i) \<noteq> 0 then 1 else 0) =
        length (filter (\<lambda>q. filep q \<noteq> 0) (g_queue s)) + (if filep q' \<noteq> 0 then 1 else 0)"
    using i(1) len by (intro filter_length_update) simp
  then have occ: "occupied ((g_queue s)[i := q']) + 1 = occupied (g_queue s)"
    using i(2) f by (simp add: occupied_def q'_def)
  have g: "sint (g_connected s) = int (occupied (g_queue s))"
    using inv by (simp add: queue_inv_def)
  then have "sint (g_connected s - 1) = int (occupied (g_queue s)) - 1"
    using occ sint_dec32[of "g_connected s"] by simp
  then have cnt: "sint (g_connected s') = int (occupied (g_queue s'))"
    using occ by (simp add: s'_def)
  have "queue_inv s' (cs[i := []])"
  proof (rule queue_inv_step[OF inv i(1) _ _ _ _ cnt])
    show "heap_ok (events s') (buffers s') (cs[i := []])" using s1(2) by (simp add: s'_def)
    show "survives s s'" using s1(5) by (simp add: s'_def)
    show "g_queue s' = (g_queue s)[i := q']" by (simp add: s'_def)
    show "slot_ok (events s') q' []" by (simp add: slot_ok_def q'_def first_of_def)
  qed
  moreover have "survives s s'" using s1(5) by (simp add: s'_def)
  ultimately show ?thesis using res Some by simp
qed

text \<open>Moving \<open>front\<close> past the first node of queue \<open>i\<close>.\<close>

lemma advance_front_inv:
  assumes inv: "queue_inv s cs" and i: "i < length cs" and ci: "cs ! i = p # rest"
    and e: "events s p = Some e"
    and q: "filep q = filep (g_queue s ! i)" "rear q = rear (g_queue s ! i)" "check_header q = 0"
  defines "s' \<equiv> released (holders cs p) p e
                   (s\<lparr>g_queue := (g_queue s)[i := q\<lparr>front := flink e\<rparr>]\<rparr>)"
  shows "advance_front i q p e w out s = Some (w, out, s')"
    and "queue_inv s' (cs[i := rest])" and "survives s s'"
proof -
  define s0 where "s0 = s\<lparr>g_queue := (g_queue s)[i := q\<lparr>front := flink e\<rparr>]\<rparr>"
  have hok: "heap_ok (events s) (buffers s) cs" using inv by (rule queue_inv_heap)
  then have hok0: "heap_ok (events s0) (buffers s0) cs" by (simp add: s0_def)
  obtain e0 where e0: "events s0 p = Some e0" "flink e0 = first_of rest"
    "priv_lwnl_remove_event p s0 = Some (0, released (holders cs p) p e0 s0)"
    using remove_event_first[OF hok0 i ci] by blast
  have ee: "e0 = e" using e0(1) e by (simp add: s0_def)
  show adv: "advance_front i q p e w out s = Some (w, out, s')"
    using e0(3) ee by (simp add: advance_front_def s0_def s'_def)
  have "survives s0 s'"
    unfolding s'_def s0_def[symmetric] using released_survives[OF hok0] e0(1) ee by simp
  then show sv: "survives s s'" by (simp add: s0_def)
  have hok': "heap_ok (events s') (buffers s') (cs[i := rest])"
    unfolding s'_def s0_def[symmetric] using released_heap_ok[OF hok0 i ci] e0(1) ee by simp
  have old: "slot_ok (events s) (g_queue s ! i) (p # rest)"
    using queue_inv_slot[OF inv i] ci by simp
  have slot: "slot_ok (events s') (q\<lparr>front := flink e\<rparr>) rest"
    using old q e0(2) ee by (auto simp: slot_ok_def)
  have len: "length cs = length (g_queue s)" using inv by (rule queue_inv_length)
  have "filep (g_queue s ! i) \<noteq> 0" using old by (simp add: slot_ok_def)
  then have "occupied ((g_queue s)[i := q\<lparr>front := flink e\<rparr>]) = occupied (g_queue s)"
    using i len q(1) by (intro occupied_update) simp_all
  then have cnt: "sint (g_connected s') = int (occupied (g_queue s'))"
    using inv by (simp add: s'_def queue_inv_def)
  show "queue_inv s' (cs[i := rest])"
    by (rule queue_inv_step[OF inv i hok' sv slot _ cnt]) (simp add: s'_def)
qed

subsection \<open>Reading\<close>

lemma get_event_unknown:
  "find_filep f (g_queue s) = None \<Longrightarrow> lwnl_get_event code f len s = Some (- 1, [], s)"
  by (simp add: lwnl_get_event_def)

lemma get_event_empty:
  "find_filep f (g_queue s) = Some i \<Longrightarrow> front (g_queue s ! i) = 0 \<Longrightarrow>
     lwnl_get_event code f len s = Some (0, [], s)"
  by (simp add: lwnl_get_event_def)

lemma queue_inv_front:
  assumes inv: "queue_inv s cs" and fi: "find_filep f (g_queue s) = Some i"
  shows "i < length cs" and "front (g_queue s ! i) = first_of (cs ! i)"
proof -
  show i: "i < length cs" using find_filep_Some[OF fi] queue_inv_length[OF inv] by simp
  show "front (g_queue s ! i) = first_of (cs ! i)"
    using queue_inv_slot[OF inv i] by (simp add: slot_ok_def)
qed

lemma queue_inv_first:
  assumes inv: "queue_inv s cs" and i: "i < length cs" and ci: "cs ! i = p # rest"
  shows "front (g_queue s ! i) = p" and "p \<noteq> 0" and "\<exists>e. events s p = Some e"
proof -
  show "front (g_queue s ! i) = p"
    using queue_inv_slot[OF inv i] ci by (simp add: slot_ok_def first_of_def)
  have ch: "is_chain (events s) p (p # rest)"
    using heap_ok_chain[OF queue_inv_heap[OF inv] i] ci by (simp add: first_of_def)
  then show "p \<noteq> 0" by simp
  show "\<exists>e. events s p = Some e" using is_chain_tl[OF ch] by blast
qed

lemma get_event_header_more:
  assumes inv: "queue_inv s cs" and fi: "find_filep f (g_queue s) = Some i"
    and ci: "cs ! i = p # rest" and e: "events s p = Some e"
    and ch: "check_header (g_queue s ! i) = 0" and len: "8 \<le> unat len"
    and dl: "data_len (evt_data e) \<noteq> 0"
  defines "s' \<equiv> s\<lparr>g_queue := (g_queue s)[i := (g_queue s ! i)\<lparr>check_header := 1\<rparr>]\<rparr>"
  shows "lwnl_get_event code f len s =
           Some (8, word_bytes (code (status (evt_data e))) @ word_bytes (data_len (evt_data e)), s')"
    and "queue_inv s' cs"
proof -
  have i: "i < length cs" using queue_inv_front(1)[OF inv fi] .
  have fr: "front (g_queue s ! i) = p" "p \<noteq> 0" using queue_inv_first[OF inv i ci] by simp_all
  have nl: "\<not> len < 8" using len by (simp add: word_less_nat_alt)
  have pos: "0 < data_len (evt_data e)" using dl by (simp add: word_greater_zero_iff)
  show "lwnl_get_event code f len s =
           Some (8, word_bytes (code (status (evt_data e))) @ word_bytes (data_len (evt_data e)), s')"
    using fi fr e ch nl pos by (simp add: lwnl_get_event_def Let_def s'_def)
  have old: "slot_ok (events s) (g_queue s ! i) (p # rest)"
    using queue_inv_slot[OF inv i] ci by simp
  have slot: "slot_ok (events s') ((g_queue s ! i)\<lparr>check_header := 1\<rparr>) (p # rest)"
    using old e dl by (simp add: slot_ok_def s'_def first_of_def)
  have len': "length cs = length (g_queue s)" using inv by (rule queue_inv_length)
  have "occupied ((g_queue s)[i := (g_queue s ! i)\<lparr>check_header := 1\<rparr>]) = occupied (g_queue s)"
    using i len' by (intro occupied_update) simp_all
  then have cnt: "sint (g_connected s') = int (occupied (g_queue s'))"
    using inv by (simp add: s'_def queue_inv_def)
  have "queue_inv s' (cs[i := p # rest])"
  proof (rule queue_inv_step[OF inv i _ _ slot _ cnt])
    show "heap_ok (events s') (buffers s') (cs[i := p # rest])"
      using queue_inv_heap[OF inv] ci by (simp add: s'_def) (metis list_update_id)
    show "survives s s'" by (simp add: s'_def survives_def)
    show "g_queue s' = (g_queue s)[i := (g_queue s ! i)\<lparr>check_header := 1\<rparr>]"
      by (simp add: s'_def)
  qed
  then show "queue_inv s' cs" using ci by (metis list_update_id)
qed

lemma get_event_header_last:
  assumes inv: "queue_inv s cs" and fi: "find_filep f (g_queue s) = Some i"
    and ci: "cs ! i = p # rest" and e: "events s p = Some e"
    and ch: "check_header (g_queue s ! i) = 0" and len: "8 \<le> unat len"
    and dl: "data_len (evt_data e) = 0"
  defines "s' \<equiv> released (holders cs p) p e
                   (s\<lparr>g_queue := (g_queue s)[i := (g_queue s ! i)\<lparr>front := flink e\<rparr>]\<rparr>)"
  shows "lwnl_get_event code f len s =
           Some (8, word_bytes (code (status (evt_data e))) @ word_bytes 0, s')"
    and "queue_inv s' (cs[i := rest])" and "survives s s'"
proof -
  have i: "i < length cs" using queue_inv_front(1)[OF inv fi] .
  have fr: "front (g_queue s ! i) = p" "p \<noteq> 0" using queue_inv_first[OF inv i ci] by simp_all
  have nl: "\<not> len < 8" using len by (simp add: word_less_nat_alt)
  note adv = advance_front_inv[OF inv i ci e refl refl ch, folded s'_def]
  show "lwnl_get_event code f len s =
           Some (8, word_bytes (code (status (evt_data e))) @ word_bytes 0, s')"
    using fi fr e ch nl dl adv(1) by (simp add: lwnl_get_event_def Let_def)
  show "queue_inv s' (cs[i := rest])" using adv(2) .
  show "survives s s'" using adv(3) .
qed

lemma get_event_payload:
  assumes inv: "queue_inv s cs" and fi: "find_filep f (g_queue s) = Some i"
    and ci: "cs ! i = p # rest" and e: "events s p = Some e"
    and ch: "check_header (g_queue s ! i) \<noteq> 0"
    and len: "unat (data_len (evt_data e)) \<le> unat len"
  defines "s' \<equiv> released (holders cs p) p e
       (s\<lparr>g_queue := (g_queue s)[i := (g_queue s ! i)\<lparr>check_header := 0, front := flink e\<rparr>]\<rparr>)"
  shows "\<exists>bs. buffers s (data (evt_data e)) = Some bs \<and>
           length bs = unat (data_len (evt_data e)) \<and>
           lwnl_get_event code f len s = Some (sint (data_len (evt_data e)), bs, s')"
    and "queue_inv s' (cs[i := rest])" and "survives s s'"
proof -
  have i: "i < length cs" using queue_inv_front(1)[OF inv fi] .
  have fr: "front (g_queue s ! i) = p" "p \<noteq> 0" using queue_inv_first[OF inv i ci] by simp_all
  have nl: "\<not> len < data_len (evt_data e)" using len by (simp add: word_less_nat_alt)
  have old: "slot_ok (events s) (g_queue s ! i) (p # rest)"
    using queue_inv_slot[OF inv i] ci by simp
  then have dl: "data_len (evt_data e) \<noteq> 0"
    using ch e by (simp add: slot_ok_def first_of_def)
  have "payload_ok (buffers s) (evt_data e)"
    using heap_ok_payload[OF queue_inv_heap[OF inv] e] .
  then obtain bs where bs: "buffers s (data (evt_data e)) = Some bs"
      "length bs = unat (data_len (evt_data e))"
    using dl by (auto simp: payload_ok_def split: if_splits option.splits)
  have "unat (data_len (evt_data e)) \<noteq> 0" using dl by (simp add: unat_eq_zero)
  then have pb: "payload_bytes s (data (evt_data e)) (unat (data_len (evt_data e))) = Some bs"
    using bs by (simp add: payload_bytes_def)
  note adv = advance_front_inv[OF inv i ci e, of "(g_queue s ! i)\<lparr>check_header := 0\<rparr>",
      simplified, folded s'_def]
  have "lwnl_get_event code f len s = Some (sint (data_len (evt_data e)), bs, s')"
    using fi fr e ch nl pb adv(1) by (simp add: lwnl_get_event_def Let_def)
  then show "\<exists>bs. buffers s (data (evt_data e)) = Some bs \<and>
           length bs = unat (data_len (evt_data e)) \<and>
           lwnl_get_event code f len s = Some (sint (data_len (evt_data e)), bs, s')"
    using bs by blast
  show "queue_inv s' (cs[i := rest])" using adv(2) .
  show "survives s s'" using adv(3) .
qed

subsection \<open>Linking a new node\<close>

lemma add_event_slots_eq:
  assumes "h event = Some E"
    and "\<forall>q\<in>set qs. filep q \<noteq> 0 \<longrightarrow> front q \<noteq> 0 \<longrightarrow> rear q = L"
    and "(\<exists>q\<in>set qs. filep q \<noteq> 0 \<and> front q \<noteq> 0) \<longrightarrow> (\<exists>EL. h L = Some EL) \<and> L \<noteq> event"
  shows "add_event_slots event gc qs h = Some (map (link_slot event) qs, linked_heap event gc L qs h)"
  using assms
proof (induction qs arbitrary: h E)
  case Nil
  then show ?case by (simp add: linked_heap_def)
next
  case (Cons q qs)
  have rears: "\<forall>q\<in>set qs. filep q \<noteq> 0 \<longrightarrow> front q \<noteq> 0 \<longrightarrow> rear q = L"
    using Cons.prems(2) by simp
  show ?case
  proof (cases "filep q \<noteq> 0")
    case False
    have "(\<exists>q\<in>set qs. filep q \<noteq> 0 \<and> front q \<noteq> 0) \<longrightarrow> (\<exists>EL. h L = Some EL) \<and> L \<noteq> event"
      using Cons.prems(3) by auto
    from Cons.IH[OF Cons.prems(1) rears this]
    show ?thesis using False by (simp add: link_slot_def linked_heap_def)
  next
    case occ: True
    define E1 where "E1 = E\<lparr>refs := scast gc\<rparr>"
    define h1 where "h1 = h(event \<mapsto> E1)"
    have h1e: "h1 event = Some E1" by (simp add: h1_def)
    have idem1: "h1(event \<mapsto> E1\<lparr>refs := scast gc\<rparr>) = h1"
      by (rule ext) (simp add: h1_def E1_def)
    show ?thesis
    proof (cases "front q = 0")
      case True
      have p3: "(\<exists>q\<in>set qs. filep q \<noteq> 0 \<and> front q \<noteq> 0) \<longrightarrow> (\<exists>EL. h1 L = Some EL) \<and> L \<noteq> event"
        using Cons.prems(3) by (auto simp: h1_def)
      have ih: "add_event_slots event gc qs h1 =
                  Some (map (link_slot event) qs, linked_heap event gc L qs h1)"
        using Cons.IH[OF h1e rears p3] .
      have "linked_heap event gc L qs h1 = linked_heap event gc L (q # qs) h"
        using occ True Cons.prems(1) h1e idem1
        by (auto simp: linked_heap_def Let_def h1_def[symmetric] E1_def[symmetric])
      then show ?thesis
        using occ True Cons.prems(1) ih
        by (simp add: link_slot_def h1_def[symmetric] E1_def[symmetric])
    next
      case False
      then have rq: "rear q = L" using occ Cons.prems(2) by simp
      obtain EL where EL: "h L = Some EL" and ne: "L \<noteq> event"
        using Cons.prems(3) occ False by auto
      define h2 where "h2 = h1(L \<mapsto> EL\<lparr>flink := event\<rparr>)"
      have h1L: "h1 L = Some EL" using EL ne by (simp add: h1_def)
      have h2e: "h2 event = Some E1" using ne by (simp add: h2_def h1_def)
      have h2L: "h2 L = Some (EL\<lparr>flink := event\<rparr>)" by (simp add: h2_def)
      have p3: "(\<exists>q\<in>set qs. filep q \<noteq> 0 \<and> front q \<noteq> 0) \<longrightarrow> (\<exists>EL. h2 L = Some EL) \<and> L \<noteq> event"
        using ne h2L by simp
      have ih: "add_event_slots event gc qs h2 =
                  Some (map (link_slot event) qs, linked_heap event gc L qs h2)"
        using Cons.IH[OF h2e rears p3] .
      have idem2: "h2(event \<mapsto> E1\<lparr>refs := scast gc\<rparr>) = h2"
        using h2e by (intro ext) (auto simp: E1_def)
      have idem3: "h2(L \<mapsto> EL\<lparr>flink := event, flink := event\<rparr>) = h2"
        using h2L by (intro ext) auto
      have a: "linked_heap event gc L qs h2 = h2"
        using h2e h2L idem2 idem3 by (auto simp: linked_heap_def Let_def)
      have b: "linked_heap event gc L (q # qs) h = h2"
        using occ False Cons.prems(1) h1L
        by (auto simp: linked_heap_def Let_def h1_def[symmetric] E1_def[symmetric] h2_def)
      show ?thesis
        using occ False Cons.prems(1) ih a b rq h1L
        by (simp add: link_slot_def h1_def[symmetric] E1_def[symmetric] h2_def[symmetric])
    qed
  qed
qed

lemma appended_length [simp]: "length (appended qs cs m) = min (length qs) (length cs)"
  by (simp add: appended_def)

lemma appended_nth:
  "j < length qs \<Longrightarrow> j < length cs \<Longrightarrow>
     appended qs cs m ! j = (if filep (qs ! j) \<noteq> 0 then cs ! j @ [m] else cs ! j)"
  by (simp add: appended_def)

lemma holders_appended:
  assumes "length qs = length cs" and "\<forall>c\<in>set cs. m \<notin> set c"
  shows "holders (appended qs cs m) a = (if a = m then occupied qs else holders cs a)"
  using assms
proof (induction qs cs rule: list_induct2)
  case Nil
  then show ?case by (simp add: holders_def appended_def occupied_def)
next
  case (Cons q qs c cs)
  have ih: "holders (appended qs cs m) a = (if a = m then occupied qs else holders cs a)"
    using Cons by simp
  have "m \<notin> set c" using Cons.prems by simp
  then show ?case
    using ih by (auto simp: holders_def appended_def occupied_def)
qed

lemma linked_heap_apply:
  assumes "h m = Some E0"
    and "(\<exists>q\<in>set qs. filep q \<noteq> 0 \<and> front q \<noteq> 0) \<longrightarrow> h L = Some EL \<and> L \<noteq> m"
  shows "linked_heap m gc L qs h a =
     (if a = m then Some (E0\<lparr>refs := if \<exists>q\<in>set qs. filep q \<noteq> 0 then scast gc else refs E0\<rparr>)
      else if a = L \<and> (\<exists>q\<in>set qs. filep q \<noteq> 0 \<and> front q \<noteq> 0) then Some (EL\<lparr>flink := m\<rparr>)
      else h a)"
  using assms by (auto simp: linked_heap_def Let_def)

lemma is_chain_append:
  assumes "is_chain h p c" and "c \<noteq> []" and "m \<notin> set c" and "m \<noteq> 0"
    and "\<exists>e. h' m = Some e \<and> flink e = 0"
    and "\<exists>e. h' (last c) = Some e \<and> flink e = m"
    and "\<And>a. a \<in> set c \<Longrightarrow> a \<noteq> last c \<Longrightarrow> map_option flink (h' a) = map_option flink (h a)"
  shows "is_chain h' p (c @ [m])"
  using assms
proof (induction c arbitrary: p)
  case Nil
  then show ?case by simp
next
  case (Cons a c)
  have d: "distinct (a # c)" using Cons.prems(1) by (rule is_chain_distinct)
  obtain e where e: "h a = Some e" "is_chain h (flink e) c" "p = a" "a \<noteq> 0"
    using Cons.prems(1) by (auto split: option.splits)
  show ?case
  proof (cases "c = []")
    case True
    then show ?thesis using Cons.prems(4,5,6) e by auto
  next
    case False
    then have "a \<noteq> last (a # c)" using d by auto
    then have "map_option flink (h' a) = map_option flink (h a)" using Cons.prems(7) by simp
    then obtain e' where e': "h' a = Some e'" "flink e' = flink e" using e(1) by auto
    have "is_chain h' (flink e) (c @ [m])"
    proof (rule Cons.IH[OF e(2) False])
      show "m \<notin> set c" using Cons.prems(3) by simp
      show "m \<noteq> 0" using Cons.prems(4) .
      show "\<exists>e. h' m = Some e \<and> flink e = 0" using Cons.prems(5) .
      show "\<exists>e. h' (last c) = Some e \<and> flink e = m" using Cons.prems(6) False by simp
      show "\<And>b. b \<in> set c \<Longrightarrow> b \<noteq> last c \<Longrightarrow> map_option flink (h' b) = map_option flink (h b)"
        using Cons.prems(7) False by simp
    qed
    then show ?thesis using e e' by simp
  qed
qed

lemma first_of_append: "c \<noteq> [] \<Longrightarrow> first_of (c @ xs) = first_of c"
  by (cases c) (simp_all add: first_of_def)

lemma slot_of_queue:
  assumes "list_all2 P qs cs" and "q \<in> set qs"
  shows "\<exists>c\<in>set cs. P q c"
  using assms by (metis in_set_conv_nth list_all2_conv_all_nth)

lemma filep_link_slot [simp]: "filep (link_slot m q) = filep q"
  by (simp add: link_slot_def)

lemma occupied_link [simp]: "occupied (map (link_slot m) qs) = occupied qs"
  by (induction qs) (simp_all add: occupied_def)

lemma occupied_zero: "(occupied qs = 0) = (\<forall>q\<in>set qs. filep q = 0)"
  by (auto simp: occupied_def filter_empty_conv)

lemma chain_first_not_null: "is_chain h p c \<Longrightarrow> c \<noteq> [] \<Longrightarrow> first_of c \<noteq> 0"
  by (cases c) (auto simp: first_of_def)

lemma priv_add_event_inv:
  assumes inv: "queue_inv s cs" and e: "events s m = Some E" and m0: "m \<noteq> 0"
    and out: "holders cs m = 0"
  shows "\<exists>s'. priv_lwnl_add_event m s = Some (0, s') \<and>
           queue_inv s' (appended (g_queue s) cs m) \<and>
           buffers s' = buffers s \<and> g_connected s' = g_connected s \<and>
           g_queue s' = map (link_slot m) (g_queue s) \<and>
           (\<forall>a. map_option evt_data (events s' a) = map_option evt_data (events s a))"
proof -
  define qs where "qs = g_queue s"
  define h where "h = events s"
  define h0 where "h0 = h(m \<mapsto> E\<lparr>flink := 0\<rparr>)"
  define gc where "gc = g_connected s"
  define cs' where "cs' = appended qs cs m"
  define occ where "occ = (\<exists>q\<in>set qs. filep q \<noteq> 0)"
  define ne where "ne = (\<exists>q\<in>set qs. filep q \<noteq> 0 \<and> front q \<noteq> 0)"
  have len: "length cs = length qs" unfolding qs_def using inv by (rule queue_inv_length)
  have hok: "heap_ok h (buffers s) cs" unfolding h_def using inv by (rule queue_inv_heap)
  have slots: "\<And>j. j < length cs \<Longrightarrow> slot_ok h (qs ! j) (cs ! j)"
    unfolding h_def qs_def using queue_inv_slot[OF inv] .
  have chains: "\<And>j. j < length cs \<Longrightarrow> is_chain h (first_of (cs ! j)) (cs ! j)"
    using heap_ok_chain[OF hok] .
  have notin: "\<And>c. c \<in> set cs \<Longrightarrow> m \<notin> set c" using holders_zero[OF out] .
  have hE: "h m = Some E" using e by (simp add: h_def)
  obtain L where L: "\<And>c. c \<in> set cs \<Longrightarrow> c \<noteq> [] \<Longrightarrow> last c = L"
  proof (cases "\<exists>c\<in>set cs. c \<noteq> []")
    case True
    then obtain c0 where "c0 \<in> set cs" "c0 \<noteq> []" by blast
    then have "\<And>c. c \<in> set cs \<Longrightarrow> c \<noteq> [] \<Longrightarrow> last c = last c0"
      using hok unfolding heap_ok_def by blast
    then show ?thesis using that by blast
  next
    case False
    then show ?thesis using that[of 0] by blast
  qed
  have nonempty: "\<And>j. j < length cs \<Longrightarrow> front (qs ! j) \<noteq> 0 \<Longrightarrow> cs ! j \<noteq> []"
  proof -
    fix j assume j: "j < length cs" "front (qs ! j) \<noteq> 0"
    from slots[OF j(1)] show "cs ! j \<noteq> []" using j(2) by (auto simp: slot_ok_def first_of_def)
  qed
  have empty: "\<And>j. j < length cs \<Longrightarrow> front (qs ! j) = 0 \<Longrightarrow> cs ! j = []"
  proof -
    fix j assume j: "j < length cs" "front (qs ! j) = 0"
    from slots[OF j(1)] have "first_of (cs ! j) = 0" using j(2) by (simp add: slot_ok_def)
    then show "cs ! j = []" using chain_first_not_null[OF chains[OF j(1)]] by blast
  qed
  have free: "\<And>j. j < length cs \<Longrightarrow> filep (qs ! j) = 0 \<Longrightarrow> cs ! j = []"
  proof -
    fix j assume j: "j < length cs" "filep (qs ! j) = 0"
    from slots[OF j(1)] show "cs ! j = []" using j(2) by (auto simp: slot_ok_def)
  qed
  have rears: "\<forall>q\<in>set qs. filep q \<noteq> 0 \<longrightarrow> front q \<noteq> 0 \<longrightarrow> rear q = L"
  proof (intro ballI impI)
    fix q assume q: "q \<in> set qs" "filep q \<noteq> 0" "front q \<noteq> 0"
    then obtain j where j: "j < length cs" "qs ! j = q" using len by (metis in_set_conv_nth)
    have "cs ! j \<noteq> []" using nonempty[OF j(1)] q(3) j(2) by simp
    moreover have "cs ! j \<in> set cs" using j(1) by simp
    ultimately show "rear q = L" using slots[OF j(1)] L j(2) by (simp add: slot_ok_def)
  qed
  have Llive: "ne \<Longrightarrow> \<exists>EL. h L = Some EL \<and> L \<noteq> m"
  proof -
    assume ne
    then obtain q where q: "q \<in> set qs" "front q \<noteq> 0" unfolding ne_def by blast
    then obtain j where j: "j < length cs" "qs ! j = q" using len by (metis in_set_conv_nth)
    have c: "cs ! j \<noteq> []" "cs ! j \<in> set cs" using nonempty[OF j(1)] q(2) j by simp_all
    then have "L \<in> set (cs ! j)" using L last_in_set by metis
    then show ?thesis using is_chain_live[OF chains[OF j(1)]] notin[OF c(2)] by metis
  qed
  have pre3: "(\<exists>q\<in>set qs. filep q \<noteq> 0 \<and> front q \<noteq> 0) \<longrightarrow> (\<exists>EL. h0 L = Some EL) \<and> L \<noteq> m"
    using Llive by (auto simp: ne_def h0_def)
  define h' where "h' = linked_heap m gc L qs h0"
  have loop: "add_event_slots m gc qs h0 = Some (map (link_slot m) qs, h')"
  proof -
    have "h0 m = Some (E\<lparr>flink := 0\<rparr>)" by (simp add: h0_def)
    from add_event_slots_eq[of h0 m "E\<lparr>flink := 0\<rparr>" qs L gc, OF this rears pre3]
    show ?thesis by (simp add: h'_def)
  qed
  define s' where "s' = s\<lparr>g_queue := map (link_slot m) qs, events := h'\<rparr>"
  have res: "priv_lwnl_add_event m s = Some (0, s')"
    using e loop by (simp add: priv_lwnl_add_event_def s'_def qs_def h_def h0_def gc_def)
  have Fm: "h' m = Some (E\<lparr>flink := 0, refs := if occ then scast gc else refs E\<rparr>)"
  proof (cases ne)
    case True
    then obtain EL where "h L = Some EL" "L \<noteq> m" using Llive by blast
    then have "(\<exists>q\<in>set qs. filep q \<noteq> 0 \<and> front q \<noteq> 0) \<longrightarrow> h0 L = Some EL \<and> L \<noteq> m"
      by (simp add: h0_def)
    from linked_heap_apply[of h0 m "E\<lparr>flink := 0\<rparr>", OF _ this, of gc m]
    show ?thesis by (simp add: h'_def h0_def occ_def)
  next
    case False
    then have "(\<exists>q\<in>set qs. filep q \<noteq> 0 \<and> front q \<noteq> 0) \<longrightarrow> h0 L = Some E \<and> L \<noteq> m"
      unfolding ne_def by blast
    from linked_heap_apply[of h0 m "E\<lparr>flink := 0\<rparr>", OF _ this, of gc m]
    show ?thesis by (simp add: h'_def h0_def occ_def)
  qed
  have FL: "ne \<Longrightarrow> \<exists>EL. h L = Some EL \<and> h' L = Some (EL\<lparr>flink := m\<rparr>) \<and> L \<noteq> m"
  proof -
    assume n: ne
    then obtain EL where EL: "h L = Some EL" "L \<noteq> m" using Llive by blast
    then have "(\<exists>q\<in>set qs. filep q \<noteq> 0 \<and> front q \<noteq> 0) \<longrightarrow> h0 L = Some EL \<and> L \<noteq> m"
      by (simp add: h0_def)
    from linked_heap_apply[of h0 m "E\<lparr>flink := 0\<rparr>", OF _ this, of gc L]
    have "h' L = Some (EL\<lparr>flink := m\<rparr>)" using n EL(2) by (simp add: h'_def h0_def ne_def)
    then show ?thesis using EL by blast
  qed
  have Fo: "\<And>a. a \<noteq> m \<Longrightarrow> (ne \<Longrightarrow> a \<noteq> L) \<Longrightarrow> h' a = h a"
  proof -
    fix a assume a: "a \<noteq> m" "ne \<Longrightarrow> a \<noteq> L"
    show "h' a = h a"
    proof (cases ne)
      case True
      then obtain EL where EL: "h L = Some EL" "L \<noteq> m" using Llive by blast
      then have "(\<exists>q\<in>set qs. filep q \<noteq> 0 \<and> front q \<noteq> 0) \<longrightarrow> h0 L = Some EL \<and> L \<noteq> m"
        by (simp add: h0_def)
      from linked_heap_apply[of h0 m "E\<lparr>flink := 0\<rparr>", OF _ this, of gc a]
      show ?thesis using a True by (simp add: h'_def h0_def)
    next
      case False
      then have "(\<exists>q\<in>set qs. filep q \<noteq> 0 \<and> front q \<noteq> 0) \<longrightarrow> h0 L = Some E \<and> L \<noteq> m"
        unfolding ne_def by blast
      from linked_heap_apply[of h0 m "E\<lparr>flink := 0\<rparr>", OF _ this, of gc a]
      show ?thesis using a False by (auto simp: h'_def h0_def ne_def)
    qed
  qed
  have Fd: "\<And>a. map_option evt_data (h' a) = map_option evt_data (h a)"
  proof -
    fix a
    show "map_option evt_data (h' a) = map_option evt_data (h a)"
      using Fm FL Fo[of a] hE by (cases "a = m"; cases "ne \<and> a = L") auto
  qed
  have Fr: "\<And>a. a \<noteq> m \<Longrightarrow> map_option refs (h' a) = map_option refs (h a)"
  proof -
    fix a assume "a \<noteq> m"
    then show "map_option refs (h' a) = map_option refs (h a)"
      using FL Fo[of a] by (cases "ne \<and> a = L") auto
  qed
  have nth': "\<And>j. j < length cs \<Longrightarrow>
                cs' ! j = (if filep (qs ! j) \<noteq> 0 then cs ! j @ [m] else cs ! j)"
    unfolding cs'_def using len by (simp add: appended_nth)
  have len': "length cs' = length cs" using len by (simp add: cs'_def)
  have ne_of: "\<And>j. j < length cs \<Longrightarrow> filep (qs ! j) \<noteq> 0 \<Longrightarrow> cs ! j \<noteq> [] \<Longrightarrow> ne"
  proof -
    fix j assume j: "j < length cs" "filep (qs ! j) \<noteq> 0" "cs ! j \<noteq> []"
    have "front (qs ! j) \<noteq> 0" using empty[OF j(1)] j(3) by blast
    moreover have "qs ! j \<in> set qs" using j(1) len by simp
    ultimately show ne using j(2) unfolding ne_def by blast
  qed
  have c1n: "\<And>j. j < length cs \<Longrightarrow> is_chain h' (first_of (cs' ! j)) (cs' ! j)"
  proof -
    fix j assume j: "j < length cs"
    show "is_chain h' (first_of (cs' ! j)) (cs' ! j)"
    proof (cases "filep (qs ! j) \<noteq> 0")
      case False
      then show ?thesis using nth'[OF j] free[OF j] by (simp add: first_of_def)
    next
      case occj: True
      show ?thesis
      proof (cases "cs ! j = []")
        case True
        then show ?thesis using nth'[OF j] occj Fm m0 by (simp add: first_of_def)
      next
        case False
        have n: ne using ne_of[OF j occj False] .
        have lst: "last (cs ! j) = L" using L[OF _ False] j by simp
        have mn: "m \<notin> set (cs ! j)" using notin j by simp
        have "is_chain h' (first_of (cs ! j)) (cs ! j @ [m])"
        proof (rule is_chain_append[OF chains[OF j] False mn m0])
          show "\<exists>e. h' m = Some e \<and> flink e = 0" using Fm by simp
          show "\<exists>e. h' (last (cs ! j)) = Some e \<and> flink e = m" using FL[OF n] lst by auto
          show "\<And>a. a \<in> set (cs ! j) \<Longrightarrow> a \<noteq> last (cs ! j) \<Longrightarrow>
                  map_option flink (h' a) = map_option flink (h a)"
            using Fo mn lst by metis
        qed
        then show ?thesis using nth'[OF j] occj False by (simp add: first_of_append)
      qed
    qed
  qed
  have shape: "\<And>c. c \<in> set cs' \<Longrightarrow> c \<noteq> [] \<Longrightarrow> last c = m"
  proof -
    fix c assume c: "c \<in> set cs'" "c \<noteq> []"
    then obtain j where j: "j < length cs" "cs' ! j = c" using len' by (metis in_set_conv_nth)
    show "last c = m"
      using nth'[OF j(1)] j(2) c(2) free[OF j(1)] by (auto split: if_splits)
  qed
  have c1: "\<forall>c\<in>set cs'. is_chain h' (first_of c) c"
    using c1n len' by (metis in_set_conv_nth)
  have c2: "\<forall>c\<in>set cs'. \<forall>c'\<in>set cs'. c \<noteq> [] \<longrightarrow> c' \<noteq> [] \<longrightarrow> last c = last c'"
    using shape by simp
  have hold: "\<And>a. holders cs' a = (if a = m then occupied qs else holders cs a)"
    unfolding cs'_def using holders_appended[OF len[symmetric]] notin by blast
  have gcv: "sint gc = int (occupied qs)"
    using inv by (simp add: queue_inv_def gc_def qs_def)
  have "occupied qs \<le> 127" using occupied_le[of qs] len hok by (simp add: heap_ok_def)
  then have sc: "sint (scast gc :: 8 word) = int (occupied qs)"
    using gcv sint_scast8[of gc] by simp
  have noocc: "\<not> occ \<Longrightarrow> occupied qs = 0" by (simp add: occ_def occupied_zero)
  have c3: "\<forall>a e'. h' a = Some e' \<longrightarrow>
              sint (refs e') = int (holders cs' a) \<and> payload_ok (buffers s) (evt_data e')"
  proof (intro allI impI)
    fix a e' assume a: "h' a = Some e'"
    obtain e0 where e0: "h a = Some e0" "evt_data e' = evt_data e0"
      using Fd[of a] a by (cases "h a") auto
    have po: "payload_ok (buffers s) (evt_data e')"
      using heap_ok_payload[OF hok e0(1)] e0(2) by simp
    have "sint (refs e') = int (holders cs' a)"
    proof (cases "a = m")
      case True
      have "sint (refs E) = 0" using heap_ok_refs[OF hok hE] out by simp
      then show ?thesis using True a Fm sc noocc hold[of m] by (cases occ) auto
    next
      case False
      then have "refs e' = refs e0" using Fr[of a] a e0(1) by simp
      then show ?thesis using heap_ok_refs[OF hok e0(1)] hold[of a] False by simp
    qed
    then show "sint (refs e') = int (holders cs' a) \<and> payload_ok (buffers s) (evt_data e')"
      using po by simp
  qed
  have c4: "\<forall>a a' e1 e2. h' a = Some e1 \<longrightarrow> h' a' = Some e2 \<longrightarrow> a \<noteq> a' \<longrightarrow>
              data (evt_data e1) \<noteq> 0 \<longrightarrow> data (evt_data e1) \<noteq> data (evt_data e2)"
  proof (intro allI impI)
    fix a a' e1 e2
    assume g: "h' a = Some e1" "h' a' = Some e2" "a \<noteq> a'" "data (evt_data e1) \<noteq> 0"
    obtain f1 where f1: "h a = Some f1" "evt_data e1 = evt_data f1"
      using Fd[of a] g(1) by (cases "h a") auto
    obtain f2 where f2: "h a' = Some f2" "evt_data e2 = evt_data f2"
      using Fd[of a'] g(2) by (cases "h a'") auto
    show "data (evt_data e1) \<noteq> data (evt_data e2)"
      using heap_ok_unshared[OF hok f1(1) f2(1) g(3)] g(4) f1(2) f2(2) by simp
  qed
  have c5: "length cs' \<le> 127" using hok len' by (simp add: heap_ok_def)
  have hok': "heap_ok h' (buffers s) cs'"
    unfolding heap_ok_def using c1 c2 c3 c4 c5 by blast
  have sl: "list_all2 (slot_ok h') (map (link_slot m) qs) cs'"
  proof (rule list_all2_all_nthI)
    show "length (map (link_slot m) qs) = length cs'" using len len' by simp
  next
    fix j assume "j < length (map (link_slot m) qs)"
    then have j: "j < length cs" using len by simp
    have jq: "j < length qs" using j len by simp
    have old: "slot_ok h (qs ! j) (cs ! j)" using slots[OF j] .
    have "slot_ok h' (link_slot m (qs ! j)) (cs' ! j)"
    proof (cases "filep (qs ! j) \<noteq> 0")
      case False
      then show ?thesis
        using nth'[OF j] free[OF j] old by (simp add: link_slot_def slot_ok_def)
    next
      case occj: True
      show ?thesis
      proof (cases "front (qs ! j) = 0")
        case True
        then have "cs ! j = []" using empty[OF j] by simp
        then show ?thesis
          using nth'[OF j] occj True old by (simp add: link_slot_def slot_ok_def first_of_def)
      next
        case False
        then have cne: "cs ! j \<noteq> []" using nonempty[OF j] by simp
        have fo: "first_of (cs ! j @ [m]) = first_of (cs ! j)" using cne by (rule first_of_append)
        have "check_header (qs ! j) = 0 \<or>
              (check_header (qs ! j) = 1 \<and>
               (case h' (first_of (cs ! j)) of None \<Rightarrow> False
                | Some e \<Rightarrow> data_len (evt_data e) \<noteq> 0))"
        proof (cases "check_header (qs ! j) = 0")
          case True
          then show ?thesis by simp
        next
          case False
          then obtain e0 where e0: "h (first_of (cs ! j)) = Some e0"
              "data_len (evt_data e0) \<noteq> 0" "check_header (qs ! j) = 1"
            using old by (auto simp: slot_ok_def split: option.splits)
          then obtain e1 where "h' (first_of (cs ! j)) = Some e1" "evt_data e1 = evt_data e0"
            using Fd[of "first_of (cs ! j)"] by (cases "h' (first_of (cs ! j))") auto
          then show ?thesis using e0 by simp
        qed
        then show ?thesis
          using nth'[OF j] occj False old cne fo by (simp add: link_slot_def slot_ok_def)
      qed
    qed
    then show "slot_ok h' (map (link_slot m) qs ! j) (cs' ! j)" using jq by simp
  qed
  have "queue_inv s' cs'"
    unfolding queue_inv_def using hok' sl gcv by (simp add: s'_def gc_def)
  moreover have "\<forall>a. map_option evt_data (events s' a) = map_option evt_data (events s a)"
    using Fd by (simp add: s'_def h_def)
  ultimately show ?thesis
    using res by (simp add: s'_def cs'_def qs_def)
qed

subsection \<open>Allocating\<close>

lemma chain_nodes_live:
  assumes "heap_ok h b cs" and "c \<in> set cs" and "a \<in> set c"
  shows "\<exists>e. h a = Some e"
  using assms is_chain_live unfolding heap_ok_def by blast

lemma fresh_not_held:
  assumes "heap_ok h b cs" and "h m = None"
  shows "holders cs m = 0"
proof -
  have "\<And>c. c \<in> set cs \<Longrightarrow> m \<notin> set c"
    using chain_nodes_live[OF assms(1)] assms(2) by fastforce
  then show ?thesis by (simp add: holders_def filter_empty_conv)
qed

lemma new_event_inv:
  assumes inv: "queue_inv s cs" and m: "events s m = None"
    and pl: "payload_ok (buffers s) d"
    and un0: "\<forall>a e. events s a = Some e \<longrightarrow> data d \<noteq> 0 \<longrightarrow> data (evt_data e) \<noteq> data d"
  shows "queue_inv (s\<lparr>events := (events s)(m \<mapsto> \<lparr>flink = 0, evt_data = d, refs = 0\<rparr>)\<rparr>) cs"
proof -
  define h' where "h' = (events s)(m \<mapsto> \<lparr>flink = 0, evt_data = d, refs = 0\<rparr>)"
  have un: "\<And>a e. events s a = Some e \<Longrightarrow> data d \<noteq> 0 \<Longrightarrow> data (evt_data e) \<noteq> data d"
    using un0 by blast
  have hok: "heap_ok (events s) (buffers s) cs" using inv by (rule queue_inv_heap)
  have hm: "holders cs m = 0" using fresh_not_held[OF hok m] .
  have notin: "\<And>c. c \<in> set cs \<Longrightarrow> m \<notin> set c" using holders_zero[OF hm] .
  have c1: "\<forall>c\<in>set cs. is_chain h' (first_of c) c"
  proof
    fix c assume c: "c \<in> set cs"
    have "is_chain h' (first_of c) c = is_chain (events s) (first_of c) c"
      by (rule is_chain_cong) (use notin[OF c] in \<open>auto simp: h'_def\<close>)
    then show "is_chain h' (first_of c) c" using hok c by (simp add: heap_ok_def)
  qed
  have c3: "\<forall>a e. h' a = Some e \<longrightarrow>
              sint (refs e) = int (holders cs a) \<and> payload_ok (buffers s) (evt_data e)"
  proof (intro allI impI)
    fix a e assume a: "h' a = Some e"
    show "sint (refs e) = int (holders cs a) \<and> payload_ok (buffers s) (evt_data e)"
    proof (cases "a = m")
      case True
      then have "e = \<lparr>flink = 0, evt_data = d, refs = 0\<rparr>" using a by (simp add: h'_def)
      then show ?thesis using True hm pl by simp
    next
      case False
      then have "events s a = Some e" using a by (simp add: h'_def)
      then show ?thesis using heap_ok_refs[OF hok] heap_ok_payload[OF hok] by blast
    qed
  qed
  have c4: "\<forall>a a' e e'. h' a = Some e \<longrightarrow> h' a' = Some e' \<longrightarrow> a \<noteq> a' \<longrightarrow>
              data (evt_data e) \<noteq> 0 \<longrightarrow> data (evt_data e) \<noteq> data (evt_data e')"
  proof (intro allI impI)
    fix a a' e e'
    assume g: "h' a = Some e" "h' a' = Some e'" "a \<noteq> a'" "data (evt_data e) \<noteq> 0"
    show "data (evt_data e) \<noteq> data (evt_data e')"
    proof (cases "a = m")
      case True
      then have "evt_data e = d" "events s a' = Some e'" using g by (auto simp: h'_def)
      then show ?thesis using un[of a' e'] g(4) by auto
    next
      case False
      then have ea: "events s a = Some e" using g(1) by (simp add: h'_def)
      show ?thesis
      proof (cases "a' = m")
        case True
        then have "evt_data e' = d" using g(2) by (auto simp: h'_def)
        moreover have "data (evt_data e) \<noteq> 0 \<Longrightarrow> data d \<noteq> 0 \<Longrightarrow> data (evt_data e) \<noteq> data d"
          using un[OF ea] .
        ultimately show ?thesis using g(4) by auto
      next
        case False
        then have "events s a' = Some e'" using g(2) by (simp add: h'_def)
        then show ?thesis using heap_ok_unshared[OF hok ea _ g(3) g(4)] by simp
      qed
    qed
  qed
  have c2: "\<forall>c\<in>set cs. \<forall>c'\<in>set cs. c \<noteq> [] \<longrightarrow> c' \<noteq> [] \<longrightarrow> last c = last c'"
    using hok unfolding heap_ok_def by blast
  have c5: "length cs \<le> 127" using hok by (simp add: heap_ok_def)
  have hok': "heap_ok h' (buffers s) cs"
    unfolding heap_ok_def using c1 c2 c3 c4 c5 by blast
  have sv: "\<And>c. c \<noteq> [] \<Longrightarrow> c \<in> set cs \<Longrightarrow> h' (first_of c) = events s (first_of c)"
  proof -
    fix c :: "addr list" assume c: "c \<noteq> []" "c \<in> set cs"
    have "first_of c \<in> set c" using c(1) by (rule first_of_in)
    then have "first_of c \<noteq> m" using notin[OF c(2)] by auto
    then show "h' (first_of c) = events s (first_of c)" by (simp add: h'_def)
  qed
  have "list_all2 (slot_ok h') (g_queue s) cs"
  proof (rule list_all2_all_nthI)
    show "length (g_queue s) = length cs" using queue_inv_length[OF inv] by simp
  next
    fix j assume "j < length (g_queue s)"
    then have j: "j < length cs" using queue_inv_length[OF inv] by simp
    have "slot_ok (events s) (g_queue s ! j) (cs ! j)" using queue_inv_slot[OF inv j] .
    moreover have "cs ! j \<noteq> [] \<Longrightarrow> h' (first_of (cs ! j)) = events s (first_of (cs ! j))"
      using sv[of "cs ! j"] j by simp
    ultimately show "slot_ok h' (g_queue s ! j) (cs ! j)"
      by (cases "cs ! j = []") (simp_all add: slot_ok_def)
  qed
  then show ?thesis
    using hok' inv by (simp add: queue_inv_def h'_def)
qed

lemma new_buffer_inv:
  assumes inv: "queue_inv s cs" and m: "buffers s m = None"
  shows "queue_inv (s\<lparr>buffers := (buffers s)(m \<mapsto> b)\<rparr>) cs"
proof -
  have hok: "heap_ok (events s) (buffers s) cs" using inv by (rule queue_inv_heap)
  have po: "\<And>d. payload_ok (buffers s) d \<Longrightarrow> payload_ok ((buffers s)(m \<mapsto> b)) d"
    using m by (auto simp: payload_ok_def split: option.splits)
  have c1: "\<forall>c\<in>set cs. is_chain (events s) (first_of c) c"
    using hok by (simp add: heap_ok_def)
  have c2: "\<forall>c\<in>set cs. \<forall>c'\<in>set cs. c \<noteq> [] \<longrightarrow> c' \<noteq> [] \<longrightarrow> last c = last c'"
    using hok unfolding heap_ok_def by blast
  have c3: "\<forall>a e. events s a = Some e \<longrightarrow>
        sint (refs e) = int (holders cs a) \<and> payload_ok ((buffers s)(m \<mapsto> b)) (evt_data e)"
    using heap_ok_refs[OF hok] heap_ok_payload[OF hok] po by blast
  have c4: "\<forall>a a' e e'. events s a = Some e \<longrightarrow> events s a' = Some e' \<longrightarrow> a \<noteq> a' \<longrightarrow>
        data (evt_data e) \<noteq> 0 \<longrightarrow> data (evt_data e) \<noteq> data (evt_data e')"
    using heap_ok_unshared[OF hok] by blast
  have c5: "length cs \<le> 127" using hok by (simp add: heap_ok_def)
  have "heap_ok (events s) ((buffers s)(m \<mapsto> b)) cs"
    unfolding heap_ok_def using c1 c2 c3 c4 c5 by blast
  then show ?thesis using inv by (simp add: queue_inv_def)
qed

lemma payload_live:
  assumes "heap_ok h b cs" and "h a = Some e" and "data (evt_data e) \<noteq> 0"
  shows "\<exists>bs. b (data (evt_data e)) = Some bs"
  using heap_ok_payload[OF assms(1,2)] assms(3)
  by (auto simp: payload_ok_def split: option.splits)

text \<open>Linking a fresh node with the data \<open>d\<close>.\<close>

lemma link_event_inv:
  assumes inv: "queue_inv s cs" and m: "events s m = None" and m0: "m \<noteq> 0"
    and pl: "payload_ok (buffers s) d"
    and un0: "\<forall>a e. events s a = Some e \<longrightarrow> data d \<noteq> 0 \<longrightarrow> data (evt_data e) \<noteq> data d"
  shows "\<exists>s'. link_event m d s = Some (0, s') \<and>
           queue_inv s' (appended (g_queue s) cs m) \<and>
           buffers s' = buffers s \<and> g_connected s' = g_connected s \<and>
           g_queue s' = map (link_slot m) (g_queue s) \<and>
           (\<forall>a. map_option evt_data (events s' a) =
                 (if a = m then Some d else map_option evt_data (events s a)))"
proof -
  define s1 where "s1 = s\<lparr>events := (events s)(m \<mapsto> \<lparr>flink = 0, evt_data = d, refs = 0\<rparr>)\<rparr>"
  have inv1: "queue_inv s1 cs" unfolding s1_def using new_event_inv[OF inv m pl un0] .
  have hm: "holders cs m = 0" using fresh_not_held[OF queue_inv_heap[OF inv] m] .
  have e1: "events s1 m = Some \<lparr>flink = 0, evt_data = d, refs = 0\<rparr>" by (simp add: s1_def)
  obtain s' where s': "priv_lwnl_add_event m s1 = Some (0, s')"
      "queue_inv s' (appended (g_queue s1) cs m)"
      "buffers s' = buffers s1" "g_connected s' = g_connected s1"
      "g_queue s' = map (link_slot m) (g_queue s1)"
      "\<forall>a. map_option evt_data (events s' a) = map_option evt_data (events s1 a)"
    using priv_add_event_inv[OF inv1 e1 m0 hm] by blast
  have "link_event m d s = Some (0, s')"
    using s'(1) by (simp add: link_event_def s1_def[symmetric])
  moreover have "\<forall>a. map_option evt_data (events s' a) =
                 (if a = m then Some d else map_option evt_data (events s a))"
    using s'(6) by (simp add: s1_def)
  ultimately show ?thesis using s'(2,3,4,5) by (simp add: s1_def)
qed

subsection \<open>The serializer\<close>

lemma count_items_length: "count_items xs n = n + length xs"
  by (induction xs arbitrary: n) simp_all

lemma memcpy_at_length: "memcpy_at dst off src n = Some d \<Longrightarrow> length d = length dst"
  by (auto simp: memcpy_at_def split: if_splits)

lemma copy_items_length: "copy_items rsz buf xs cnt = Some b \<Longrightarrow> length b = length buf"
proof (induction xs arbitrary: buf cnt)
  case Nil
  then show ?case by simp
next
  case (Cons x xs)
  then obtain buf' where b: "memcpy_at buf (rsz * cnt) x rsz = Some buf'"
      "copy_items rsz buf' xs (cnt + 1) = Some b"
    by (auto split: option.splits)
  show ?case using Cons.IH[OF b(2)] memcpy_at_length[OF b(1)] by simp
qed

lemma copy_items_concat:
  assumes "\<forall>x\<in>set xs. length x = rsz" and "rsz * (cnt + length xs) \<le> length buf"
  shows "copy_items rsz buf xs cnt =
           Some (take (rsz * cnt) buf @ concat xs @ drop (rsz * (cnt + length xs)) buf)"
  using assms
proof (induction xs arbitrary: buf cnt)
  case Nil
  then show ?case by simp
next
  case (Cons x xs)
  define buf' where "buf' = take (rsz * cnt) buf @ x @ drop (rsz * cnt + rsz) buf"
  have lx: "length x = rsz" using Cons.prems(1) by simp
  have bound: "rsz * cnt + rsz \<le> length buf"
    using Cons.prems(2) by (simp add: algebra_simps) 
  have m: "memcpy_at buf (rsz * cnt) x rsz = Some buf'"
    using lx bound by (simp add: memcpy_at_def buf'_def)
  have len': "length buf' = length buf" using memcpy_at_length[OF m] .
  have b2: "rsz * (cnt + 1 + length xs) \<le> length buf'"
    using Cons.prems(2) len' by (simp add: algebra_simps)
  have ih: "copy_items rsz buf' xs (cnt + 1) =
      Some (take (rsz * (cnt + 1)) buf' @ concat xs @ drop (rsz * (cnt + 1 + length xs)) buf')"
    using Cons.IH[where buf=buf' and cnt="cnt + 1"] Cons.prems(1) b2 by simp
  have lt: "length (take (rsz * cnt) buf) = rsz * cnt" using bound by simp
  have t: "take (rsz * (cnt + 1)) buf' = take (rsz * cnt) buf @ x"
    using lt lx by (simp add: buf'_def algebra_simps)
  have "drop (rsz * (cnt + 1 + length xs)) buf' =
        drop (rsz * length xs) (drop (rsz * cnt + rsz) buf)"
    using lt lx by (simp add: buf'_def algebra_simps)
  then have d: "drop (rsz * (cnt + 1 + length xs)) buf' =
        drop (rsz * (cnt + length (x # xs))) buf"
    by (simp add: algebra_simps)
  show ?case using m ih t d by simp
qed

lemma copy_scan_info_fail: "priv_lwnl_copy_scan_info rsz 0 scan_list s = Some (- 1, 0, s)"
  by (simp add: priv_lwnl_copy_scan_info_def Let_def)

lemma copy_scan_info_ok:
  assumes m: "m \<noteq> 0" and wf: "\<forall>x\<in>set scan_list. length x = rsz"
    and small: "rsz * length scan_list < 2 ^ 31"
  shows "priv_lwnl_copy_scan_info rsz m scan_list s =
           Some (int (rsz * length scan_list), m,
                 s\<lparr>buffers := (buffers s)(m \<mapsto> concat scan_list)\<rparr>)"
proof -
  define n where "n = rsz * length scan_list"
  define sz :: "32 word" where "sz = of_nat rsz * of_nat (length scan_list)"
  have sz: "sz = of_nat n" by (simp add: sz_def n_def)
  have n31: "n < 2 ^ 31" using small by (simp add: n_def)
  have un: "unat sz = n"
    unfolding sz using n31 by (simp add: unat_of_nat)
  have "sz = word_of_int (int n)" unfolding sz by simp
  then have "sint sz = signed_take_bit 31 (int n)"
    by (simp only: sint_sbintrunc') simp
  also have "\<dots> = int n"
    using n31 by (intro signed_take_bit_int_eq_self) simp_all
  finally have si: "sint sz = int n" .
  have "copy_items rsz (replicate n 0) scan_list 0 =
          Some (take (rsz * 0) (replicate n 0) @ concat scan_list @
                drop (rsz * (0 + length scan_list)) (replicate n 0))"
    by (rule copy_items_concat[OF wf]) (simp add: n_def)
  then have "copy_items rsz (replicate n 0) scan_list 0 = Some (concat scan_list)"
    by (simp add: n_def)
  then show ?thesis
    using m un si
    by (simp add: priv_lwnl_copy_scan_info_def Let_def count_items_length sz_def[symmetric]
        n_def[symmetric])
qed

lemma word_of_int_sint32: "word_of_int (sint (w :: 32 word)) = w"
  by simp

lemma length_concat_uniform:
  "\<forall>x\<in>set xs. length x = k \<Longrightarrow> length (concat xs) = k * length xs"
  by (induction xs) simp_all

lemma unat_of_nat_small: "n < 2 ^ 31 \<Longrightarrow> unat (of_nat n :: 32 word) = n"
  by (simp add: unat_of_nat)

subsection \<open>The invariant under \<open>lwnl_add_event\<close> and \<open>lwnl_get_event\<close>\<close>

lemma add_event_plain:
  "m_evt \<noteq> 0 \<Longrightarrow> type \<noteq> LWNL_SCAN_DONE \<Longrightarrow> type \<noteq> LWNL_UNKNOWN \<Longrightarrow>
     lwnl_add_event rsz type buffer m_evt m_out s =
       link_event m_evt \<lparr>status = type, data = 0, data_len = 0\<rparr> s"
  by (cases type) (simp_all add: lwnl_add_event_def)

lemma add_event_scan_failed:
  "m_evt \<noteq> 0 \<Longrightarrow>
     lwnl_add_event rsz LWNL_SCAN_DONE buffer m_evt 0 s =
       link_event m_evt \<lparr>status = LWNL_SCAN_FAILED, data = 0, data_len = 0\<rparr> s"
  by (simp add: lwnl_add_event_def copy_scan_info_fail)

lemma add_event_scan_done:
  assumes "m_evt \<noteq> 0" and "m_out \<noteq> 0" and "\<forall>x\<in>set buffer. length x = rsz"
    and "rsz * length buffer < 2 ^ 31"
  shows "lwnl_add_event rsz LWNL_SCAN_DONE buffer m_evt m_out s =
       link_event m_evt
         \<lparr>status = LWNL_SCAN_DONE, data = m_out, data_len = of_nat (rsz * length buffer)\<rparr>
         (s\<lparr>buffers := (buffers s)(m_out \<mapsto> concat buffer)\<rparr>)"
  using assms(1) copy_scan_info_ok[OF assms(2,3,4), of s]
  by (simp add: lwnl_add_event_def del: of_nat_mult)

lemma payload_ok_null: "payload_ok b \<lparr>status = k, data = 0, data_len = 0\<rparr>"
  by (simp add: payload_ok_def)

lemma keeps_refl: "keeps s cs s cs"
  by (simp add: keeps_def)

lemma add_event_inv:
  assumes inv: "queue_inv s cs" and mal: "malloc_ok s m_evt m_out"
    and res: "lwnl_add_event rsz type buffer m_evt m_out s = Some (r, s')"
  shows "\<exists>cs'. queue_inv s' cs' \<and> length cs' = length cs \<and> keeps s cs s' cs'"
proof (cases "m_evt = 0")
  case True
  then have "s' = s" using res by (auto simp: lwnl_add_event_def)
  then show ?thesis using inv keeps_refl by blast
next
  case m0: False
  then have fr: "events s m_evt = None" "buffers s m_evt = None"
    using mal by (simp_all add: malloc_ok_def fresh_def)
  have len: "length (g_queue s) = length cs" using queue_inv_length[OF inv] by simp
  have linked: "\<And>d s1. queue_inv s1 cs \<Longrightarrow> events s1 = events s \<Longrightarrow>
      payload_ok (buffers s1) d \<Longrightarrow> g_queue s1 = g_queue s \<Longrightarrow>
      (\<forall>a e. events s a = Some e \<longrightarrow>
         buffers s1 (data (evt_data e)) = buffers s (data (evt_data e))) \<Longrightarrow>
      (\<forall>a e. events s1 a = Some e \<longrightarrow> data d \<noteq> 0 \<longrightarrow> data (evt_data e) \<noteq> data d) \<Longrightarrow>
      link_event m_evt d s1 = Some (r, s') \<Longrightarrow>
      \<exists>cs'. queue_inv s' cs' \<and> length cs' = length cs \<and> keeps s cs s' cs'"
  proof -
    fix d s1
    assume a: "queue_inv s1 cs" "events s1 = events s" "payload_ok (buffers s1) d"
      "g_queue s1 = g_queue s"
      "\<forall>a e. events s a = Some e \<longrightarrow>
         buffers s1 (data (evt_data e)) = buffers s (data (evt_data e))"
      "\<forall>a e. events s1 a = Some e \<longrightarrow> data d \<noteq> 0 \<longrightarrow> data (evt_data e) \<noteq> data d"
      "link_event m_evt d s1 = Some (r, s')"
    have e1: "events s1 m_evt = None" using fr(1) a(2) by simp
    obtain s2 where s2: "link_event m_evt d s1 = Some (0, s2)"
        "queue_inv s2 (appended (g_queue s1) cs m_evt)" "buffers s2 = buffers s1"
        "\<forall>a. map_option evt_data (events s2 a) =
              (if a = m_evt then Some d else map_option evt_data (events s1 a))"
      using link_event_inv[OF a(1) e1 m0 a(3,6)] by blast
    have eq: "s' = s2" using s2(1) a(7) by simp
    define cs' where "cs' = appended (g_queue s1) cs m_evt"
    have notin: "\<forall>c\<in>set cs. m_evt \<notin> set c"
      using holders_zero[OF fresh_not_held[OF queue_inv_heap[OF inv] fr(1)]] by blast
    have hold: "\<And>a. holders cs' a = (if a = m_evt then occupied (g_queue s1) else holders cs a)"
      unfolding cs'_def using holders_appended[OF _ notin] len a(4) by simp
    have "keeps s cs s' cs'"
      unfolding keeps_def
    proof (intro allI impI conjI)
      fix a e assume ea: "events s a = Some e"
      then have ne: "a \<noteq> m_evt" using fr(1) by auto
      have "map_option evt_data (events s' a) = Some (evt_data e)"
        using s2(4) eq ne ea a(2) by simp
      then show "\<exists>e'. events s' a = Some e' \<and> evt_data e' = evt_data e" by auto
      show "holders cs' a = holders cs a" using hold[of a] ne by simp
      show "buffers s' (data (evt_data e)) = buffers s (data (evt_data e))"
        using a(5) ea s2(3) eq by simp
    qed
    then show "\<exists>cs'. queue_inv s' cs' \<and> length cs' = length cs \<and> keeps s cs s' cs'"
      using s2(2) a(4) len eq by (intro exI[of _ cs']) (simp add: cs'_def)
  qed
  have same: "\<forall>a e. events s a = Some e \<longrightarrow>
         buffers s (data (evt_data e)) = buffers s (data (evt_data e))"
    by simp
  show ?thesis
  proof (cases "type = LWNL_UNKNOWN")
    case True
    then have "s' = s\<lparr>events := (events s)(m_evt \<mapsto>
        \<lparr>flink = 0, evt_data = \<lparr>status = LWNL_UNKNOWN, data = 0, data_len = 0\<rparr>, refs = 0\<rparr>)\<rparr>"
      using res m0 by (simp add: lwnl_add_event_def)
    then have s'eq: "s' = s\<lparr>events := (events s)(m_evt \<mapsto>
        \<lparr>flink = 0, evt_data = \<lparr>status = LWNL_UNKNOWN, data = 0, data_len = 0\<rparr>, refs = 0\<rparr>)\<rparr>"
      by simp
    then have "queue_inv s' cs"
      using new_event_inv[OF inv fr(1) payload_ok_null, of LWNL_UNKNOWN] by simp
    moreover have "keeps s cs s' cs"
      using fr(1) by (auto simp: keeps_def s'eq)
    ultimately show ?thesis by blast
  next
    case nu: False
    show ?thesis
    proof (cases "type = LWNL_SCAN_DONE")
      case False
      have "link_event m_evt \<lparr>status = type, data = 0, data_len = 0\<rparr> s = Some (r, s')"
        using res add_event_plain[OF m0 False nu] by simp
      from linked[OF inv refl payload_ok_null refl same _ this] show ?thesis by simp
    next
      case sd: True
      show ?thesis
      proof (cases "m_out = 0")
        case True
        have "link_event m_evt \<lparr>status = LWNL_SCAN_FAILED, data = 0, data_len = 0\<rparr> s = Some (r, s')"
          using res add_event_scan_failed[OF m0] sd True by simp
        from linked[OF inv refl payload_ok_null refl same _ this] show ?thesis by simp
      next
        case o0: False
        then have fo: "buffers s m_out = None" "m_out \<noteq> m_evt"
          using mal by (simp_all add: malloc_ok_def fresh_def)
        define sz :: "32 word" where "sz = of_nat rsz * of_nat (count_items buffer 0)"
        obtain b where b: "copy_items rsz (replicate (unat sz) 0) buffer 0 = Some b"
          using res m0 sd o0
          by (cases "copy_items rsz (replicate (unat sz) 0) buffer 0")
            (auto simp: lwnl_add_event_def priv_lwnl_copy_scan_info_def Let_def sz_def)
        define s1 where "s1 = s\<lparr>buffers := (buffers s)(m_out \<mapsto> b)\<rparr>"
        have cp: "priv_lwnl_copy_scan_info rsz m_out buffer s = Some (sint sz, m_out, s1)"
          using b o0 by (simp add: priv_lwnl_copy_scan_info_def Let_def sz_def s1_def)
        have inv1: "queue_inv s1 cs" unfolding s1_def using new_buffer_inv[OF inv fo(1)] .
        have e1: "events s1 = events s" by (simp add: s1_def)
        have gq: "g_queue s1 = g_queue s" by (simp add: s1_def)
        have lb: "length b = unat sz" using copy_items_length[OF b] by simp
        have bf: "\<forall>a e. events s a = Some e \<longrightarrow>
                    buffers s1 (data (evt_data e)) = buffers s (data (evt_data e))"
        proof (intro allI impI)
          fix a e assume ea: "events s a = Some e"
          have "data (evt_data e) \<noteq> m_out"
          proof (cases "data (evt_data e) = 0")
            case True
            then show ?thesis using o0 by simp
          next
            case False
            then obtain bs where "buffers s (data (evt_data e)) = Some bs"
              using payload_live[OF queue_inv_heap[OF inv] ea] by blast
            then show ?thesis using fo(1) by auto
          qed
          then show "buffers s1 (data (evt_data e)) = buffers s (data (evt_data e))"
            by (simp add: s1_def)
        qed
        show ?thesis
        proof (cases "sint sz < 0")
          case True
          have "link_event m_evt \<lparr>status = LWNL_SCAN_FAILED, data = 0, data_len = 0\<rparr> s1 =
                  Some (r, s')"
            using res m0 sd cp True by (simp add: lwnl_add_event_def)
          from linked[OF inv1 e1 payload_ok_null gq bf _ this] show ?thesis by simp
        next
          case False
          define d where "d = \<lparr>status = LWNL_SCAN_DONE, data = m_out, data_len = sz\<rparr>"
          have le: "link_event m_evt d s1 = Some (r, s')"
            using res m0 sd cp False by (simp add: lwnl_add_event_def d_def)
          have po: "payload_ok (buffers s1) d"
            using o0 lb by (simp add: payload_ok_def d_def s1_def)
          have un: "\<forall>a e. events s1 a = Some e \<longrightarrow> data d \<noteq> 0 \<longrightarrow> data (evt_data e) \<noteq> data d"
          proof (intro allI impI)
            fix a e assume a: "events s1 a = Some e"
            then have ea: "events s a = Some e" by (simp add: s1_def)
            show "data (evt_data e) \<noteq> data d"
            proof (cases "data (evt_data e) = 0")
              case True
              then show ?thesis using o0 by (simp add: d_def)
            next
              case False
              then obtain bs where "buffers s (data (evt_data e)) = Some bs"
                using payload_live[OF queue_inv_heap[OF inv] ea] by blast
              then show ?thesis using fo(1) by (auto simp: d_def)
            qed
          qed
          from linked[OF inv1 e1 po gq bf un le] show ?thesis .
        qed
      qed
    qed
  qed
qed

lemma get_event_inv:
  assumes inv: "queue_inv s cs"
  shows "\<exists>r out s' cs'. lwnl_get_event code f len s = Some (r, out, s') \<and>
           queue_inv s' cs' \<and> length cs' = length cs \<and> survives s s'"
proof (cases "find_filep f (g_queue s)")
  case None
  then show ?thesis using get_event_unknown[OF None] inv survives_refl by blast
next
  case (Some i)
  have i: "i < length cs" using queue_inv_front(1)[OF inv Some] .
  show ?thesis
  proof (cases "cs ! i")
    case Nil
    then have "front (g_queue s ! i) = 0"
      using queue_inv_front(2)[OF inv Some] by (simp add: first_of_def)
    then show ?thesis using get_event_empty[OF Some] inv survives_refl by blast
  next
    case (Cons p rest)
    obtain e where e: "events s p = Some e" using queue_inv_first(3)[OF inv i Cons] by blast
    have fr: "front (g_queue s ! i) = p" "p \<noteq> 0" using queue_inv_first[OF inv i Cons] by simp_all
    show ?thesis
    proof (cases "check_header (g_queue s ! i) = 0")
      case ch: True
      show ?thesis
      proof (cases "8 \<le> unat len")
        case False
        then have "lwnl_get_event code f len s = Some (- 1, [], s)"
          using Some fr e ch by (simp add: lwnl_get_event_def Let_def word_less_nat_alt)
        then show ?thesis using inv survives_refl by blast
      next
        case True
        show ?thesis
        proof (cases "data_len (evt_data e) = 0")
          case dl: True
          note g = get_event_header_last[OF inv Some Cons e ch True dl]
          show ?thesis using g(1)[of code] g(2) g(3) by (metis length_list_update)
        next
          case False
          note g = get_event_header_more[OF inv Some Cons e ch True False]
          have "survives s (s\<lparr>g_queue := (g_queue s)[i := (g_queue s ! i)\<lparr>check_header := 1\<rparr>]\<rparr>)"
            by (simp add: survives_refl)
          then show ?thesis using g(1)[of code] g(2) by blast
        qed
      qed
    next
      case ch: False
      show ?thesis
      proof (cases "unat (data_len (evt_data e)) \<le> unat len")
        case False
        then have "lwnl_get_event code f len s = Some (- 1, [], s)"
          using Some fr e ch by (simp add: lwnl_get_event_def Let_def word_less_nat_alt)
        then show ?thesis using inv survives_refl by blast
      next
        case True
        note g = get_event_payload[OF inv Some Cons e ch True]
        show ?thesis using g(1)[of code] g(2) g(3) by (metis length_list_update)
      qed
    qed
  qed
qed

subsection \<open>Every reachable state satisfies the invariant\<close>

lemma reachable_inv:
  assumes "reachable n s" and "n \<le> 127"
  shows "\<exists>cs. queue_inv s cs \<and> length cs = n"
  using assms(1)
proof (induction rule: reachable.induct)
  case reach_init
  show ?case using queue_inv_init[OF assms(2)] by (intro exI[of _ "replicate n []"]) simp
next
  case (reach_add_listener s f r s')
  then obtain cs where cs: "queue_inv s cs" "length cs = n" by blast
  have "queue_inv (snd (lwnl_add_listener f s)) cs"
    using add_listener_inv[OF cs(1) reach_add_listener(2)] .
  then show ?case using reach_add_listener(3) cs(2) by auto
next
  case (reach_remove_listener s f r s')
  then obtain cs where cs: "queue_inv s cs" "length cs = n" by blast
  obtain s2 where s2: "lwnl_remove_listener f s = Some (0, s2)"
      "queue_inv s2 (case find_filep f (g_queue s) of None \<Rightarrow> cs | Some i \<Rightarrow> cs[i := []])"
    using remove_listener_inv[OF cs(1) reach_remove_listener(2)] by blast
  have "s' = s2" using s2(1) reach_remove_listener(3) by simp
  then show ?case using s2(2) cs(2)
    by (cases "find_filep f (g_queue s)") auto
next
  case (reach_get_event s code f len r out s')
  then obtain cs where cs: "queue_inv s cs" "length cs = n" by blast
  show ?case
    using get_event_inv[OF cs(1), of code f len] reach_get_event(2) cs(2) by auto
next
  case (reach_add_event s m_evt m_out rsz type buffer r s')
  then obtain cs where cs: "queue_inv s cs" "length cs = n" by blast
  show ?case
    using add_event_inv[OF cs(1) reach_add_event(2,3)] cs(2) by auto
qed

subsection \<open>Destruction follows the holders\<close>

lemma in_queue_inv:
  assumes "queue_inv s cs" and "i < length cs"
  shows "in_queue s i a = (a \<in> set (cs ! i))"
proof -
  have ch: "is_chain (events s) (front (g_queue s ! i)) (cs ! i)"
    using heap_ok_chain[OF queue_inv_heap[OF assms(1)] assms(2)] queue_inv_slot[OF assms]
    by (simp add: slot_ok_def)
  show ?thesis
    unfolding in_queue_def using ch is_chain_unique[OF _ ch] by blast
qed

lemma held_holders:
  assumes "queue_inv s cs"
  shows "held s a = holders cs a"
proof -
  have len: "length cs = length (g_queue s)" using assms by (rule queue_inv_length)
  have "{i. i < length (g_queue s) \<and> in_queue s i a} = {i. i < length cs \<and> a \<in> set (cs ! i)}"
    using in_queue_inv[OF assms] len by auto
  then show ?thesis
    by (simp add: held_def holders_def length_filter_conv_card)
qed

lemma frees_unheld_rel:
  assumes "queue_inv s cs" and "queue_inv s' cs'"
  shows "frees_unheld s s' = frees_rel s cs s' cs'"
  by (simp add: frees_unheld_def frees_rel_def held_holders[OF assms(1)] held_holders[OF assms(2)])

lemma frees_rel_refl: "frees_rel s cs s cs"
  by (auto simp: frees_rel_def)

lemma keeps_frees_rel: "keeps s cs s' cs' \<Longrightarrow> frees_rel s cs s' cs'"
  by (fastforce simp: keeps_def frees_rel_def)

lemma frees_rel_queue [simp]:
  "frees_rel (s\<lparr>g_queue := qs\<rparr>) cs s' cs' = frees_rel s cs s' cs'"
  "frees_rel s cs (s'\<lparr>g_queue := qs\<rparr>) cs' = frees_rel s cs s' cs'"
  "frees_rel s cs (s'\<lparr>g_connected := g\<rparr>) cs' = frees_rel s cs s' cs'"
  by (simp_all add: frees_rel_def)

lemma holders_update_le:
  assumes "i < length cs" and "set c' \<subseteq> set (cs ! i)"
  shows "holders (cs[i := c']) a \<le> holders cs a"
  using filter_length_update[OF assms(1), of "\<lambda>c. a \<in> set c" c'] assms(2)
  by (auto simp: holders_def split: if_splits)

lemma frees_rel_released:
  assumes hok: "heap_ok (events s) (buffers s) cs"
    and i: "i < length cs" and ci: "cs ! i = p # rest" and e: "events s p = Some e"
  shows "frees_rel s cs (released (holders cs p) p e s) (cs[i := rest])"
proof -
  have ch: "is_chain (events s) p (p # rest)"
    using heap_ok_chain[OF hok i] by (simp add: ci first_of_def)
  have notin: "p \<notin> set rest" using ch by (rule is_chain_head_notin)
  have hold: "\<And>a. holders (cs[i := rest]) a = (if a = p then holders cs a - 1 else holders cs a)"
    using holders_pop(1)[OF i ci notin] by simp
  have k1: "1 \<le> holders cs p" using holders_pop(2)[OF i ci notin] .
  have sv: "survives s (released (holders cs p) p e s)" using released_survives[OF hok e] .
  show ?thesis
    unfolding frees_rel_def
  proof (intro allI impI conjI)
    fix a ea assume ea: "events s a = Some ea"
    show "(events (released (holders cs p) p e s) a = None) =
            (0 < holders cs a \<and> holders (cs[i := rest]) a = 0)"
      using ea k1 hold[of a] by (auto simp: released_events)
    show "events (released (holders cs p) p e s) a = None \<Longrightarrow> data (evt_data ea) \<noteq> 0 \<Longrightarrow>
            buffers (released (holders cs p) p e s) (data (evt_data ea)) = None"
      using ea e by (auto simp: released_events released_buffers split: if_splits)
    show "events (released (holders cs p) p e s) a \<noteq> None \<Longrightarrow>
            buffers (released (holders cs p) p e s) (data (evt_data ea)) =
            buffers s (data (evt_data ea))"
      using sv ea unfolding survives_def by fastforce
  qed
qed

lemma frees_rel_trans:
  assumes r1: "frees_rel s cs s1 cs1" and r2: "frees_rel s1 cs1 s' cs'"
    and sv1: "survives s s1" and sv2: "survives s1 s'"
    and h1: "\<And>a. holders cs1 a \<le> holders cs a" and h2: "\<And>a. holders cs' a \<le> holders cs1 a"
    and bm: "\<And>b. buffers s1 b = None \<Longrightarrow> buffers s' b = None"
  shows "frees_rel s cs s' cs'"
  unfolding frees_rel_def
proof (intro allI impI)
  fix a e assume ea: "events s a = Some e"
  have f1: "(events s1 a = None) = (0 < holders cs a \<and> holders cs1 a = 0)"
    "events s1 a = None \<Longrightarrow> data (evt_data e) \<noteq> 0 \<Longrightarrow> buffers s1 (data (evt_data e)) = None"
    "events s1 a \<noteq> None \<Longrightarrow> buffers s1 (data (evt_data e)) = buffers s (data (evt_data e))"
    using r1 ea unfolding frees_rel_def by blast+
  show "((events s' a = None) = (0 < holders cs a \<and> holders cs' a = 0)) \<and>
        (events s' a = None \<longrightarrow> data (evt_data e) \<noteq> 0 \<longrightarrow>
           buffers s' (data (evt_data e)) = None) \<and>
        (events s' a \<noteq> None \<longrightarrow>
           buffers s' (data (evt_data e)) = buffers s (data (evt_data e)))"
  proof (cases "events s1 a")
    case None
    have gone: "events s' a = None"
    proof (rule ccontr)
      assume "events s' a \<noteq> None"
      then obtain e' where "events s' a = Some e'" by auto
      then have "\<exists>e1. events s1 a = Some e1" using sv2 unfolding survives_def by blast
      then show False using None by simp
    qed
    have "holders cs' a = 0" using f1(1) None h2[of a] by simp
    then show ?thesis using gone f1(1,2) None bm by auto
  next
    case (Some e1)
    have d: "evt_data e1 = evt_data e"
      using sv1 Some ea unfolding survives_def by fastforce
    have f2: "(events s' a = None) = (0 < holders cs1 a \<and> holders cs' a = 0)"
      "events s' a = None \<Longrightarrow> data (evt_data e1) \<noteq> 0 \<Longrightarrow> buffers s' (data (evt_data e1)) = None"
      "events s' a \<noteq> None \<Longrightarrow> buffers s' (data (evt_data e1)) = buffers s1 (data (evt_data e1))"
      using r2 Some unfolding frees_rel_def by blast+
    have n1: "\<not> (0 < holders cs a \<and> holders cs1 a = 0)" using f1(1) Some by simp
    have a1: "(events s' a = None) = (0 < holders cs a \<and> holders cs' a = 0)"
      using f2(1) n1 h1[of a] h2[of a] by auto
    have a2: "events s' a = None \<longrightarrow> data (evt_data e) \<noteq> 0 \<longrightarrow>
           buffers s' (data (evt_data e)) = None"
      using f2(2) d by simp
    have a3: "events s' a \<noteq> None \<longrightarrow>
           buffers s' (data (evt_data e)) = buffers s (data (evt_data e))"
      using f2(3) f1(3) Some d by simp
    show ?thesis using a1 a2 a3 by blast
  qed
qed

lemma release_from_frees:
  assumes "heap_ok (events s) (buffers s) cs" and "i < length cs" and "cs ! i = c"
    and "release_from (first_of c) s = Some s'"
  shows "frees_rel s cs s' (cs[i := []]) \<and> (\<forall>b. buffers s b = None \<longrightarrow> buffers s' b = None)"
  using assms
proof (induction c arbitrary: s cs)
  case Nil
  have "cs[i := []] = cs" using Nil.prems(2,3) by (metis list_update_id)
  moreover have "release_from (first_of []) s = Some s"
    by (subst release_from.simps) (simp add: first_of_def)
  ultimately show ?case using Nil.prems(4) frees_rel_refl by auto
next
  case (Cons p rest)
  obtain e where e: "events s p = Some e" "flink e = first_of rest"
    and rm: "priv_lwnl_remove_event p s = Some (0, released (holders cs p) p e s)"
    using remove_event_first[OF Cons.prems(1,2,3)] by blast
  define s1 where "s1 = released (holders cs p) p e s"
  define cs1 where "cs1 = cs[i := rest]"
  have hok1: "heap_ok (events s1) (buffers s1) cs1"
    unfolding s1_def cs1_def using released_heap_ok[OF Cons.prems(1,2,3) e(1)] .
  have i1: "i < length cs1" using Cons.prems(2) by (simp add: cs1_def)
  have c1: "cs1 ! i = rest" using Cons.prems(2) by (simp add: cs1_def)
  have p0: "p \<noteq> 0"
    using heap_ok_chain[OF Cons.prems(1,2)] Cons.prems(3) by (simp add: first_of_def)
  have "release_from (first_of (p # rest)) s = release_from (flink e) s1"
    using e rm p0 by (subst release_from.simps) (simp add: first_of_def s1_def)
  then have r1: "release_from (first_of rest) s1 = Some s'"
    using Cons.prems(4) e(2) by simp
  have ih: "frees_rel s1 cs1 s' (cs1[i := []])" "\<forall>b. buffers s1 b = None \<longrightarrow> buffers s' b = None"
    using Cons.IH[OF hok1 i1 c1 r1] by simp_all
  have sv1: "survives s s1" unfolding s1_def using released_survives[OF Cons.prems(1) e(1)] .
  have sv2: "survives s1 s'"
    using release_from_chain[OF hok1 i1 c1] r1 by auto
  have fr1: "frees_rel s cs s1 cs1"
    unfolding s1_def cs1_def using frees_rel_released[OF Cons.prems(1,2,3) e(1)] .
  have h1: "\<And>a. holders cs1 a \<le> holders cs a"
    unfolding cs1_def using holders_update_le[OF Cons.prems(2), of rest] Cons.prems(3) by auto
  have h2: "\<And>a. holders (cs1[i := []]) a \<le> holders cs1 a"
    using holders_update_le[OF i1, of "[]"] by simp
  have bm1: "\<And>b. buffers s b = None \<Longrightarrow> buffers s1 b = None"
    by (simp add: s1_def released_buffers)
  have "frees_rel s cs s' (cs1[i := []])"
    using frees_rel_trans[OF fr1 ih(1) sv1 sv2 h1 h2] ih(2) by blast
  then show ?case using ih(2) bm1 by (simp add: cs1_def)
qed

lemma get_event_frees:
  assumes inv: "queue_inv s cs" and res: "lwnl_get_event code f len s = Some (r, out, s')"
  shows "frees_unheld s s'"
proof -
  have same: "s' = s \<Longrightarrow> frees_unheld s s'"
    using frees_unheld_rel[OF inv inv] frees_rel_refl by simp
  show ?thesis
  proof (cases "find_filep f (g_queue s)")
    case None
    then show ?thesis using get_event_unknown[OF None, of code len] res same by simp
  next
    case (Some i)
    have i: "i < length cs" using queue_inv_front(1)[OF inv Some] .
    have hok: "heap_ok (events s) (buffers s) cs" using inv by (rule queue_inv_heap)
    show ?thesis
    proof (cases "cs ! i")
      case Nil
      then have "front (g_queue s ! i) = 0"
        using queue_inv_front(2)[OF inv Some] by (simp add: first_of_def)
      then show ?thesis using get_event_empty[OF Some, of code len] res same by simp
    next
      case (Cons p rest)
      obtain e where e: "events s p = Some e" using queue_inv_first(3)[OF inv i Cons] by blast
      have fr: "front (g_queue s ! i) = p" "p \<noteq> 0"
        using queue_inv_first[OF inv i Cons] by simp_all
      have rel: "\<And>qs. frees_rel s cs (released (holders cs p) p e (s\<lparr>g_queue := qs\<rparr>))
                      (cs[i := rest])"
      proof -
        fix qs
        have "heap_ok (events (s\<lparr>g_queue := qs\<rparr>)) (buffers (s\<lparr>g_queue := qs\<rparr>)) cs"
          using hok by simp
        from frees_rel_released[OF this i Cons, of e] e
        show "frees_rel s cs (released (holders cs p) p e (s\<lparr>g_queue := qs\<rparr>)) (cs[i := rest])"
          by simp
      qed
      show ?thesis
      proof (cases "check_header (g_queue s ! i) = 0")
        case ch: True
        show ?thesis
        proof (cases "8 \<le> unat len")
          case False
          then have "lwnl_get_event code f len s = Some (- 1, [], s)"
            using Some fr e ch by (simp add: lwnl_get_event_def Let_def word_less_nat_alt)
          then show ?thesis using res same by simp
        next
          case True
          show ?thesis
          proof (cases "data_len (evt_data e) = 0")
            case dl: True
            note g = get_event_header_last[OF inv Some Cons e ch True dl]
            have "s' = released (holders cs p) p e
                   (s\<lparr>g_queue := (g_queue s)[i := (g_queue s ! i)\<lparr>front := flink e\<rparr>]\<rparr>)"
              using g(1)[of code] res by simp
            then show ?thesis using frees_unheld_rel[OF inv g(2)] rel by simp
          next
            case False
            note g = get_event_header_more[OF inv Some Cons e ch True False]
            have "s' = s\<lparr>g_queue := (g_queue s)[i := (g_queue s ! i)\<lparr>check_header := 1\<rparr>]\<rparr>"
              using g(1)[of code] res by simp
            then show ?thesis using frees_unheld_rel[OF inv g(2)] frees_rel_refl[of s cs] by simp
          qed
        qed
      next
        case ch: False
        show ?thesis
        proof (cases "unat (data_len (evt_data e)) \<le> unat len")
          case False
          then have "lwnl_get_event code f len s = Some (- 1, [], s)"
            using Some fr e ch by (simp add: lwnl_get_event_def Let_def word_less_nat_alt)
          then show ?thesis using res same by simp
        next
          case True
          note g = get_event_payload[OF inv Some Cons e ch True]
          have "s' = released (holders cs p) p e
                  (s\<lparr>g_queue := (g_queue s)[i := (g_queue s ! i)
                         \<lparr>check_header := 0, front := flink e\<rparr>]\<rparr>)"
            using g(1)[of code] res by auto
          then show ?thesis using frees_unheld_rel[OF inv g(2)] rel by simp
        qed
      qed
    qed
  qed
qed

lemma remove_listener_frees:
  assumes inv: "queue_inv s cs" and f: "f \<noteq> 0"
    and res: "lwnl_remove_listener f s = Some (r, s')"
  shows "frees_unheld s s'"
proof (cases "find_filep f (g_queue s)")
  case None
  then have "s' = s" using res by (simp add: lwnl_remove_listener_def)
  then show ?thesis using frees_unheld_rel[OF inv inv] frees_rel_refl by simp
next
  case (Some i)
  have i: "i < length cs" using queue_inv_front(1)[OF inv Some] .
  have fr: "front (g_queue s ! i) = first_of (cs ! i)" using queue_inv_front(2)[OF inv Some] .
  obtain s2 where s2: "lwnl_remove_listener f s = Some (0, s2)" "queue_inv s2 (cs[i := []])"
    using remove_listener_inv[OF inv f] Some by auto
  have eq: "s' = s2" using s2(1) res by simp
  obtain s1 where s1: "release_from (first_of (cs ! i)) s = Some s1"
      "s' = s1\<lparr>g_queue := (g_queue s)[i := \<lparr>filep = 0, check_header = 0, front = 0, rear = 0\<rparr>],
               g_connected := g_connected s - 1\<rparr>"
    using res Some fr by (auto simp: lwnl_remove_listener_def split: option.splits)
  have "frees_rel s cs s1 (cs[i := []])"
    using release_from_frees[OF queue_inv_heap[OF inv] i refl s1(1)] by simp
  then have "frees_rel s cs s' (cs[i := []])" using s1(2) by simp
  then show ?thesis using frees_unheld_rel[OF inv] s2(2) eq by simp
qed

lemma add_event_frees:
  assumes inv: "queue_inv s cs" and mal: "malloc_ok s m_evt m_out"
    and res: "lwnl_add_event rsz type buffer m_evt m_out s = Some (r, s')"
  shows "frees_unheld s s'"
proof -
  obtain cs' where "queue_inv s' cs'" "keeps s cs s' cs'"
    using add_event_inv[OF inv mal res] by blast
  then show ?thesis using frees_unheld_rel[OF inv] keeps_frees_rel by simp
qed

subsection \<open>What a listener still has to read\<close>

lemma find_filep_update_same:
  "j < length qs \<Longrightarrow> filep q' = filep (qs ! j) \<Longrightarrow> find_filep f (qs[j := q']) = find_filep f qs"
proof (induction qs arbitrary: j)
  case Nil
  then show ?case by simp
next
  case (Cons q qs)
  then show ?case by (cases j) simp_all
qed

lemma find_filep_update_other:
  "filep (qs ! j) \<noteq> f \<Longrightarrow> filep q' \<noteq> f \<Longrightarrow> find_filep f (qs[j := q']) = find_filep f qs"
proof (induction qs arbitrary: j)
  case Nil
  then show ?case by simp
next
  case (Cons q qs)
  then show ?case by (cases j) simp_all
qed

lemma msgs_survives:
  assumes "survives s s'" and "events s' a = Some e'"
  shows "msgs code s' a = msgs code s a"
proof -
  obtain e where "events s a = Some e" "evt_data e' = evt_data e"
    "buffers s' (data (evt_data e)) = buffers s (data (evt_data e))"
    using assms unfolding survives_def by blast
  then show ?thesis using assms(2) by (simp add: msgs_def)
qed

lemma owed_survives:
  assumes sv: "survives s s'" and live: "\<forall>a\<in>set c. \<exists>e. events s' a = Some e"
    and ch: "check_header q' = check_header q"
  shows "owed code s' q' c = owed code s q c"
proof -
  have m: "\<And>a. a \<in> set c \<Longrightarrow> msgs code s' a = msgs code s a"
    using msgs_survives[OF sv] live by blast
  show ?thesis
  proof (cases c)
    case Nil
    then show ?thesis by (simp add: owed_def)
  next
    case (Cons a rest)
    have mm: "map (msgs code s') rest = map (msgs code s) rest"
      by (rule map_cong) (use m Cons in auto)
    have "concat (map (msgs code s') rest) = concat (map (msgs code s) rest)"
      by (simp only: mm)
    then show ?thesis using m[of a] Cons ch by (simp add: owed_def)
  qed
qed

lemma queue_inv_live:
  assumes "queue_inv s cs" and "i < length cs"
  shows "\<forall>a\<in>set (cs ! i). \<exists>e. events s a = Some e"
  using chain_nodes_live[OF queue_inv_heap[OF assms(1)], of "cs ! i"] assms(2) by simp

text \<open>A step that leaves the slot of \<open>f\<close> and its queue alone leaves what \<open>f\<close> is owed.\<close>

lemma owed_other_slot:
  assumes inv': "queue_inv s' cs'" and sv: "survives s s'" and i: "i < length cs'"
    and c: "cs' ! i = cs ! i" and q: "g_queue s' ! i = g_queue s ! i"
  shows "owed code s' (g_queue s' ! i) (cs' ! i) = owed code s (g_queue s ! i) (cs ! i)"
proof -
  have "\<forall>a\<in>set (cs ! i). \<exists>e. events s' a = Some e"
    using queue_inv_live[OF inv' i] c by simp
  from owed_survives[OF sv this, of "g_queue s ! i" "g_queue s ! i" code]
  show ?thesis using c q by simp
qed

text \<open>The shape of the state after any read.\<close>

lemma get_event_shape:
  assumes inv: "queue_inv s cs"
  shows "\<exists>r out s' cs'. lwnl_get_event code f len s = Some (r, out, s') \<and>
           queue_inv s' cs' \<and> length cs' = length cs \<and> survives s s' \<and>
           (case find_filep f (g_queue s) of
              None \<Rightarrow> s' = s \<and> cs' = cs
            | Some j \<Rightarrow> \<exists>q' c'. g_queue s' = (g_queue s)[j := q'] \<and>
                          filep q' = filep (g_queue s ! j) \<and> cs' = cs[j := c'])"
proof (cases "find_filep f (g_queue s)")
  case None
  then show ?thesis using get_event_unknown[OF None] inv survives_refl by fastforce
next
  case (Some i)
  have i: "i < length cs" using queue_inv_front(1)[OF inv Some] .
  have same: "lwnl_get_event code f len s = Some (r, [], s) \<Longrightarrow> ?thesis" for r
  proof -
    assume g: "lwnl_get_event code f len s = Some (r, [], s)"
    have "g_queue s = (g_queue s)[i := g_queue s ! i]" "cs = cs[i := cs ! i]" by simp_all
    then have "\<exists>q' c'. g_queue s = (g_queue s)[i := q'] \<and>
                 filep q' = filep (g_queue s ! i) \<and> cs = cs[i := c']"
      by blast
    then show ?thesis using g inv survives_refl Some by (intro exI[of _ r] exI[of _ "[]"] exI[of _ s] exI[of _ cs]) simp
  qed
  have moved: "lwnl_get_event code f len s = Some (r, out, s') \<Longrightarrow> queue_inv s' (cs[i := c']) \<Longrightarrow>
      survives s s' \<Longrightarrow> g_queue s' = (g_queue s)[i := q'] \<Longrightarrow> filep q' = filep (g_queue s ! i) \<Longrightarrow>
      ?thesis" for r out s' c' q'
  proof -
    assume g: "lwnl_get_event code f len s = Some (r, out, s')" "queue_inv s' (cs[i := c'])"
      "survives s s'" "g_queue s' = (g_queue s)[i := q']" "filep q' = filep (g_queue s ! i)"
    show ?thesis
      using g Some
      by (intro exI[of _ r] exI[of _ out] exI[of _ s'] exI[of _ "cs[i := c']"]) auto
  qed
  show ?thesis
  proof (cases "cs ! i")
    case Nil
    then have "front (g_queue s ! i) = 0"
      using queue_inv_front(2)[OF inv Some] by (simp add: first_of_def)
    then show ?thesis using get_event_empty[OF Some, of code len] same by simp
  next
    case (Cons p rest)
    obtain e where e: "events s p = Some e" using queue_inv_first(3)[OF inv i Cons] by blast
    have fr: "front (g_queue s ! i) = p" "p \<noteq> 0" using queue_inv_first[OF inv i Cons] by simp_all
    show ?thesis
    proof (cases "check_header (g_queue s ! i) = 0")
      case ch: True
      show ?thesis
      proof (cases "8 \<le> unat len")
        case False
        then have "lwnl_get_event code f len s = Some (- 1, [], s)"
          using Some fr e ch by (simp add: lwnl_get_event_def Let_def word_less_nat_alt)
        then show ?thesis by (rule same)
      next
        case True
        show ?thesis
        proof (cases "data_len (evt_data e) = 0")
          case dl: True
          note g = get_event_header_last[OF inv Some Cons e ch True dl]
          show ?thesis
            by (rule moved[OF g(1)[of code] g(2) g(3),
                  where q'="(g_queue s ! i)\<lparr>front := flink e\<rparr>"]) simp_all
        next
          case False
          note g = get_event_header_more[OF inv Some Cons e ch True False]
          have "cs[i := p # rest] = cs" using Cons by (metis list_update_id)
          then have inv': "queue_inv
              (s\<lparr>g_queue := (g_queue s)[i := (g_queue s ! i)\<lparr>check_header := 1\<rparr>]\<rparr>)
              (cs[i := p # rest])"
            using g(2) by simp
          show ?thesis
            by (rule moved[OF g(1)[of code] inv',
                  where q'="(g_queue s ! i)\<lparr>check_header := 1\<rparr>"])
              (simp_all add: survives_refl)
        qed
      qed
    next
      case ch: False
      show ?thesis
      proof (cases "unat (data_len (evt_data e)) \<le> unat len")
        case False
        then have "lwnl_get_event code f len s = Some (- 1, [], s)"
          using Some fr e ch by (simp add: lwnl_get_event_def Let_def word_less_nat_alt)
        then show ?thesis by (rule same)
      next
        case True
        note g = get_event_payload[OF inv Some Cons e ch True]
        obtain bs where b: "lwnl_get_event code f len s =
            Some (sint (data_len (evt_data e)), bs, released (holders cs p) p e
              (s\<lparr>g_queue := (g_queue s)[i := (g_queue s ! i)\<lparr>check_header := 0, front := flink e\<rparr>]\<rparr>))"
          using g(1)[of code] by blast
        show ?thesis
          by (rule moved[OF b g(2) g(3),
                where q'="(g_queue s ! i)\<lparr>check_header := 0, front := flink e\<rparr>"]) simp_all
      qed
    qed
  qed
qed

lemma msgs_of_data:
  assumes "map_option evt_data (events s a) = Some d"
  shows "msgs code s a =
           (word_bytes (code (status d)) @ word_bytes (data_len d)) #
           (if data_len d = 0 then []
            else [case buffers s (data d) of None \<Rightarrow> [] | Some b \<Rightarrow> b])"
  using assms by (cases "events s a") (auto simp: msgs_def)

lemma link_slot_fields [simp]:
  "check_header (link_slot m q) = check_header q"
  by (simp add: link_slot_def)

text \<open>Linking a fresh node: what every listener is owed grows by the new node.\<close>

lemma link_effect:
  assumes inv: "queue_inv s cs" and m: "events s m = None" and m0: "m \<noteq> 0"
    and pl: "payload_ok (buffers s) d"
    and un: "\<forall>a e. events s a = Some e \<longrightarrow> data d \<noteq> 0 \<longrightarrow> data (evt_data e) \<noteq> data d"
  shows "\<exists>s'. link_event m d s = Some (0, s') \<and>
           queue_inv s' (appended (g_queue s) cs m) \<and>
           g_queue s' = map (link_slot m) (g_queue s) \<and>
           (\<forall>a e. events s a = Some e \<longrightarrow> msgs code s' a = msgs code s a) \<and>
           msgs code s' m =
             (word_bytes (code (status d)) @ word_bytes (data_len d)) #
             (if data_len d = 0 then []
              else [case buffers s (data d) of None \<Rightarrow> [] | Some b \<Rightarrow> b])"
proof -
  obtain s' where s': "link_event m d s = Some (0, s')"
      "queue_inv s' (appended (g_queue s) cs m)" "buffers s' = buffers s"
      "g_queue s' = map (link_slot m) (g_queue s)"
      "\<forall>a. map_option evt_data (events s' a) =
            (if a = m then Some d else map_option evt_data (events s a))"
    using link_event_inv[OF inv m m0 pl un] by blast
  have old: "\<forall>a e. events s a = Some e \<longrightarrow> msgs code s' a = msgs code s a"
  proof (intro allI impI)
    fix a e assume ea: "events s a = Some e"
    then have "a \<noteq> m" using m by auto
    then have "map_option evt_data (events s' a) = Some (evt_data e)" using s'(5) ea by simp
    from msgs_of_data[OF this, of code] show "msgs code s' a = msgs code s a"
      using ea s'(3) by (simp add: msgs_def)
  qed
  have "map_option evt_data (events s' m) = Some d" using s'(5) by simp
  from msgs_of_data[OF this, of code] have new: "msgs code s' m =
             (word_bytes (code (status d)) @ word_bytes (data_len d)) #
             (if data_len d = 0 then []
              else [case buffers s (data d) of None \<Rightarrow> [] | Some b \<Rightarrow> b])"
    using s'(3) by simp
  show ?thesis using s'(1,2,4) old new by blast
qed

lemma owed_phase0: "check_header q = 0 \<Longrightarrow> owed code s q c = concat (map (msgs code s) c)"
  by (cases c) (simp_all add: owed_def)

lemma owed_append:
  assumes "c = [] \<longrightarrow> check_header q = 0"
  shows "owed code s q (c @ [m]) = owed code s q c @ msgs code s m"
  using assms by (cases c) (simp_all add: owed_def)

lemma owed_cong:
  assumes "\<forall>a\<in>set c. msgs code s' a = msgs code s a" and "check_header q' = check_header q"
  shows "owed code s' q' c = owed code s q c"
proof (cases c)
  case Nil
  then show ?thesis by (simp add: owed_def)
next
  case (Cons a rest)
  have mm: "map (msgs code s') rest = map (msgs code s) rest"
    by (rule map_cong) (use assms(1) Cons in auto)
  have "concat (map (msgs code s') rest) = concat (map (msgs code s) rest)"
    by (simp only: mm)
  then show ?thesis using assms Cons by (simp add: owed_def)
qed

lemma find_filep_link: "find_filep f (map (link_slot m) qs) = find_filep f qs"
  by (induction qs) simp_all

text \<open>A linked node reaches the slot of \<open>f\<close>.\<close>

lemma linked_owed:
  assumes tr: "tracks f i s cs"
    and inv': "queue_inv s' (appended (g_queue s) cs m)"
    and gq: "g_queue s' = map (link_slot m) (g_queue s)"
    and old: "\<forall>a e. events s a = Some e \<longrightarrow> msgs code s' a = msgs code s a"
  shows "tracks f i s' (appended (g_queue s) cs m)"
    and "owed code s' (g_queue s' ! i) (appended (g_queue s) cs m ! i) =
           owed code s (g_queue s ! i) (cs ! i) @ msgs code s' m"
proof -
  have inv: "queue_inv s cs" and f0: "f \<noteq> 0" and fi: "find_filep f (g_queue s) = Some i"
    using tr by (simp_all add: tracks_def)
  have i: "i < length cs" using queue_inv_front(1)[OF inv fi] .
  have iq: "i < length (g_queue s)" "filep (g_queue s ! i) = f"
    using find_filep_Some[OF fi] by simp_all
  have "find_filep f (map (link_slot m) (g_queue s)) = find_filep f (g_queue s)"
    by (rule find_filep_link)
  then show "tracks f i s' (appended (g_queue s) cs m)"
    using inv' f0 fi gq by (simp add: tracks_def)
  have ci: "appended (g_queue s) cs m ! i = cs ! i @ [m]"
    using i iq f0 by (simp add: appended_nth)
  have slot: "slot_ok (events s) (g_queue s ! i) (cs ! i)" using queue_inv_slot[OF inv i] .
  then have e0: "cs ! i = [] \<longrightarrow> check_header (g_queue s ! i) = 0" by (auto simp: slot_ok_def)
  have live: "\<forall>a\<in>set (cs ! i). msgs code s' a = msgs code s a"
    using queue_inv_live[OF inv i] old by blast
  have "owed code s' (g_queue s' ! i) (cs ! i @ [m]) =
          owed code s' (g_queue s' ! i) (cs ! i) @ msgs code s' m"
    using e0 gq iq(1) by (intro owed_append) simp
  moreover have "owed code s' (g_queue s' ! i) (cs ! i) = owed code s (g_queue s ! i) (cs ! i)"
    using live gq iq(1) by (intro owed_cong) simp_all
  ultimately show "owed code s' (g_queue s' ! i) (appended (g_queue s) cs m ! i) =
           owed code s (g_queue s ! i) (cs ! i) @ msgs code s' m"
    using ci by simp
qed

subsection \<open>One call, seen from the slot of a listener\<close>

lemma wire_plain:
  "wire code (k, []) = [word_bytes (code k) @ word_bytes 0]"
  by (simp add: wire_def)

lemma msgs_eqI:
  assumes "events s' a = events s a"
    and "\<forall>e. events s a = Some e \<longrightarrow>
           buffers s' (data (evt_data e)) = buffers s (data (evt_data e))"
  shows "msgs code s' a = msgs code s a"
  using assms by (auto simp: msgs_def split: option.splits)

lemma emit_step:
  assumes tr: "tracks f i s cs" and ok: "op_ok rsz f s (Emit type buffer m_evt m_out)"
  shows "\<exists>r s' cs'. lwnl_add_event rsz type buffer m_evt m_out s = Some (r, s') \<and>
           tracks f i s' cs' \<and>
           owed code s' (g_queue s' ! i) (cs' ! i) =
             owed code s (g_queue s ! i) (cs ! i) @
             concat (map (wire code) (emitted (Emit type buffer m_evt m_out)))"
proof -
  have inv: "queue_inv s cs" and f0: "f \<noteq> 0" and fi: "find_filep f (g_queue s) = Some i"
    using tr by (simp_all add: tracks_def)
  have i: "i < length cs" using queue_inv_front(1)[OF inv fi] .
  have mal: "malloc_ok s m_evt m_out" using ok by simp
  show ?thesis
  proof (cases "m_evt = 0")
    case True
    then have "lwnl_add_event rsz type buffer m_evt m_out s = Some (- 1, s)"
      by (simp add: lwnl_add_event_def)
    then show ?thesis using tr True by auto
  next
    case m0: False
    then have fr: "events s m_evt = None" "buffers s m_evt = None"
      using mal by (auto simp: malloc_ok_def fresh_def)
    have linked: "\<exists>r s' cs'. link_event m_evt d s1 = Some (r, s') \<and> tracks f i s' cs' \<and>
           owed code s' (g_queue s' ! i) (cs' ! i) =
             owed code s1 (g_queue s1 ! i) (cs ! i) @
             [word_bytes (code (status d)) @ word_bytes (data_len d)] @
             (if data_len d = 0 then []
              else [case buffers s1 (data d) of None \<Rightarrow> [] | Some b \<Rightarrow> b])"
      if a: "tracks f i s1 cs" "events s1 m_evt = None" "payload_ok (buffers s1) d"
        "\<forall>a e. events s1 a = Some e \<longrightarrow> data d \<noteq> 0 \<longrightarrow> data (evt_data e) \<noteq> data d"
      for d s1
    proof -
      have inv1: "queue_inv s1 cs" using a(1) by (simp add: tracks_def)
      obtain s' where s': "link_event m_evt d s1 = Some (0, s')"
          "queue_inv s' (appended (g_queue s1) cs m_evt)"
          "g_queue s' = map (link_slot m_evt) (g_queue s1)"
          "\<forall>a e. events s1 a = Some e \<longrightarrow> msgs code s' a = msgs code s1 a"
          "msgs code s' m_evt =
             (word_bytes (code (status d)) @ word_bytes (data_len d)) #
             (if data_len d = 0 then []
              else [case buffers s1 (data d) of None \<Rightarrow> [] | Some b \<Rightarrow> b])"
        using link_effect[OF inv1 a(2) m0 a(3,4), of code] by blast
      note l = linked_owed[OF a(1) s'(2,3,4)]
      show ?thesis
        using s'(1) l(1) l(2) s'(5)
        by (intro exI[of _ 0] exI[of _ s'] exI[of _ "appended (g_queue s1) cs m_evt"]) simp
    qed
    have un0: "\<forall>a e. events s a = Some e \<longrightarrow>
        data \<lparr>status = k, data = 0, data_len = 0\<rparr> \<noteq> 0 \<longrightarrow>
        data (evt_data e) \<noteq> data \<lparr>status = k, data = 0, data_len = 0\<rparr>" for k
      by simp
    show ?thesis
    proof (cases "type = LWNL_UNKNOWN")
      case True
      define s' where "s' = s\<lparr>events := (events s)(m_evt \<mapsto>
        \<lparr>flink = 0, evt_data = \<lparr>status = LWNL_UNKNOWN, data = 0, data_len = 0\<rparr>, refs = 0\<rparr>)\<rparr>"
      have r: "lwnl_add_event rsz type buffer m_evt m_out s = Some (- 3, s')"
        using True m0 by (simp add: lwnl_add_event_def s'_def)
      have inv': "queue_inv s' cs"
        unfolding s'_def using new_event_inv[OF inv fr(1) payload_ok_null, of LWNL_UNKNOWN] by simp
      have "\<forall>a\<in>set (cs ! i). msgs code s' a = msgs code s a"
      proof
        fix a assume "a \<in> set (cs ! i)"
        then have "\<exists>e. events s a = Some e" using queue_inv_live[OF inv i] by blast
        then have "a \<noteq> m_evt" using fr(1) by auto
        then show "msgs code s' a = msgs code s a"
          by (intro msgs_eqI) (simp_all add: s'_def)
      qed
      then have "owed code s' (g_queue s' ! i) (cs ! i) = owed code s (g_queue s ! i) (cs ! i)"
        by (intro owed_cong) (simp_all add: s'_def)
      moreover have "tracks f i s' cs" using inv' f0 fi by (simp add: tracks_def s'_def)
      ultimately show ?thesis using r True by auto
    next
      case nu: False
      show ?thesis
      proof (cases "type = LWNL_SCAN_DONE")
        case False
        have e: "lwnl_add_event rsz type buffer m_evt m_out s =
                 link_event m_evt \<lparr>status = type, data = 0, data_len = 0\<rparr> s"
          using add_event_plain[OF m0 False nu] .
        show ?thesis
          using linked[OF tr fr(1) payload_ok_null[of _ type] un0[of type]] e m0 nu False
          by (simp add: wire_plain)
      next
        case sd: True
        show ?thesis
        proof (cases "m_out = 0")
          case True
          have e: "lwnl_add_event rsz type buffer m_evt m_out s =
                 link_event m_evt \<lparr>status = LWNL_SCAN_FAILED, data = 0, data_len = 0\<rparr> s"
            using add_event_scan_failed[OF m0] sd True by simp
          show ?thesis
            using linked[OF tr fr(1) payload_ok_null[of _ LWNL_SCAN_FAILED]
                un0[of LWNL_SCAN_FAILED]] e m0 sd True
            by (simp add: wire_plain)
        next
          case o0: False
          have wf: "\<forall>x\<in>set buffer. length x = rsz" "rsz * length buffer < 2 ^ 31"
            using ok sd m0 o0 by (simp_all add: list_all_iff)
          have fo: "buffers s m_out = None" "m_out \<noteq> m_evt"
            using mal o0 by (auto simp: malloc_ok_def fresh_def)
          define N where "N = rsz * length buffer"
          define d where "d = \<lparr>status = LWNL_SCAN_DONE, data = m_out, data_len = of_nat N\<rparr>"
          define s1 where "s1 = s\<lparr>buffers := (buffers s)(m_out \<mapsto> concat buffer)\<rparr>"
          have e: "lwnl_add_event rsz type buffer m_evt m_out s = link_event m_evt d s1"
            using add_event_scan_done[OF m0 o0 wf, of s] sd
            by (simp add: d_def s1_def N_def del: of_nat_mult)
          have inv1: "queue_inv s1 cs" unfolding s1_def using new_buffer_inv[OF inv fo(1)] .
          have tr1: "tracks f i s1 cs" using inv1 f0 fi by (simp add: tracks_def s1_def)
          have e1: "events s1 m_evt = None" using fr(1) by (simp add: s1_def)
          have lc: "length (concat buffer) = N"
            unfolding N_def using wf(1) by (rule length_concat_uniform)
          have N31: "N < 2 ^ 31" using wf(2) by (simp add: N_def)
          have uN: "unat (of_nat N :: 32 word) = N" using N31 by (rule unat_of_nat_small)
          have po: "payload_ok (buffers s1) d"
            using o0 lc uN by (simp add: payload_ok_def d_def s1_def)
          have notm: "data (evt_data e) \<noteq> m_out" if ev: "events s a = Some e" for a e
          proof (cases "data (evt_data e) = 0")
            case True
            then show ?thesis using o0 by simp
          next
            case False
            then obtain bs where "buffers s (data (evt_data e)) = Some bs"
              using payload_live[OF queue_inv_heap[OF inv] ev] by blast
            then show ?thesis using fo(1) by auto
          qed
          have un: "\<forall>a e. events s1 a = Some e \<longrightarrow> data d \<noteq> 0 \<longrightarrow>
                      data (evt_data e) \<noteq> data d"
            using notm by (simp add: s1_def d_def)
          have "\<forall>a\<in>set (cs ! i). msgs code s1 a = msgs code s a"
          proof
            fix a assume "a \<in> set (cs ! i)"
            then obtain ea where ea: "events s a = Some ea"
              using queue_inv_live[OF inv i] by blast
            then show "msgs code s1 a = msgs code s a"
              using notm[OF ea] by (intro msgs_eqI) (simp_all add: s1_def)
          qed
          then have ow: "owed code s1 (g_queue s1 ! i) (cs ! i) = owed code s (g_queue s ! i) (cs ! i)"
            by (intro owed_cong) (simp_all add: s1_def)
          have z: "(of_nat N = (0 :: 32 word)) = (concat buffer = [])"
          proof
            assume "of_nat N = (0 :: 32 word)"
            then have "unat (of_nat N :: 32 word) = 0" by simp
            then have "N = 0" using uN by simp
            then show "concat buffer = []" using lc by simp
          next
            assume "concat buffer = []"
            then have "length (concat buffer) = 0" by (simp only: list.size)
            then have "N = 0" using lc by (simp only:)
            then show "of_nat N = (0 :: 32 word)" by simp
          qed
          have w: "wire code (LWNL_SCAN_DONE, concat buffer) =
             [word_bytes (code (status d)) @ word_bytes (data_len d)] @
             (if data_len d = 0 then []
              else [case buffers s1 (data d) of None \<Rightarrow> [] | Some b \<Rightarrow> b])"
            using z lc by (simp add: wire_def d_def s1_def)
          show ?thesis
            using linked[OF tr1 e1 po un] e m0 sd o0 ow w by simp
        qed
      qed
    qed
  qed
qed

lemma tracks_other_slot:
  assumes tr: "tracks f i s cs"
    and inv': "queue_inv s' (cs[j := c'])" and sv: "survives s s'"
    and gq: "g_queue s' = (g_queue s)[j := q']" and ji: "j \<noteq> i"
    and fq: "filep q' \<noteq> f" "filep (g_queue s ! j) \<noteq> f"
  shows "tracks f i s' (cs[j := c'])"
    and "owed code s' (g_queue s' ! i) (cs[j := c'] ! i) = owed code s (g_queue s ! i) (cs ! i)"
proof -
  have inv: "queue_inv s cs" and f0: "f \<noteq> 0" and fi: "find_filep f (g_queue s) = Some i"
    using tr by (simp_all add: tracks_def)
  have i: "i < length cs" using queue_inv_front(1)[OF inv fi] .
  have "find_filep f (g_queue s') = Some i"
    using find_filep_update_other[OF fq(2,1)] fi gq by simp
  then show "tracks f i s' (cs[j := c'])" using inv' f0 by (simp add: tracks_def)
  have "owed code s' (g_queue s' ! i) (cs[j := c'] ! i) = owed code s (g_queue s ! i) (cs ! i)"
    by (rule owed_other_slot[OF inv' sv]) (use i ji gq in simp_all)
  then show "owed code s' (g_queue s' ! i) (cs[j := c'] ! i) = owed code s (g_queue s ! i) (cs ! i)" .
qed

lemma read_other_step:
  assumes tr: "tracks f i s cs" and g: "g \<noteq> f"
  shows "\<exists>r out s' cs'. lwnl_get_event code g len s = Some (r, out, s') \<and>
           tracks f i s' cs' \<and>
           owed code s' (g_queue s' ! i) (cs' ! i) = owed code s (g_queue s ! i) (cs ! i)"
proof -
  have inv: "queue_inv s cs" and f0: "f \<noteq> 0" and fi: "find_filep f (g_queue s) = Some i"
    using tr by (simp_all add: tracks_def)
  obtain r out s' cs' where r: "lwnl_get_event code g len s = Some (r, out, s')"
      "queue_inv s' cs'" "survives s s'"
      "case find_filep g (g_queue s) of
              None \<Rightarrow> s' = s \<and> cs' = cs
            | Some j \<Rightarrow> \<exists>q' c'. g_queue s' = (g_queue s)[j := q'] \<and>
                          filep q' = filep (g_queue s ! j) \<and> cs' = cs[j := c']"
    using get_event_shape[OF inv, of code g len] by blast
  show ?thesis
  proof (cases "find_filep g (g_queue s)")
    case None
    then show ?thesis using r tr by auto
  next
    case (Some j)
    then obtain q' c' where s: "g_queue s' = (g_queue s)[j := q']"
        "filep q' = filep (g_queue s ! j)" "cs' = cs[j := c']"
      using r(4) by auto
    have fj: "filep (g_queue s ! j) = g" using find_filep_Some[OF Some] by simp
    have ji: "j \<noteq> i" using fj find_filep_Some[OF fi] g by auto
    have inv': "queue_inv s' (cs[j := c'])" using r(2) s(3) by simp
    have fq: "filep q' \<noteq> f" "filep (g_queue s ! j) \<noteq> f" using s(2) fj g by simp_all
    note t1 = tracks_other_slot(1)[OF tr inv' r(3) s(1) ji fq]
    note t2 = tracks_other_slot(2)[OF tr inv' r(3) s(1) ji fq, where code=code]
    show ?thesis using r(1) t1 t2 s(3) by blast
  qed
qed

lemma hdr_not_empty: "word_bytes a @ word_bytes b \<noteq> []"
  by (simp add: word_bytes_def)

lemma read_own_step:
  assumes tr: "tracks f i s cs"
  shows "\<exists>r out s' cs'. lwnl_get_event code f len s = Some (r, out, s') \<and>
           tracks f i s' cs' \<and>
           (if out \<noteq> [] then [out] else []) @ owed code s' (g_queue s' ! i) (cs' ! i) =
             owed code s (g_queue s ! i) (cs ! i) \<and>
           (len = - 1 \<and> cs ! i \<noteq> [] \<longrightarrow> out \<noteq> [])"
proof -
  have inv: "queue_inv s cs" and f0: "f \<noteq> 0" and fi: "find_filep f (g_queue s) = Some i"
    using tr by (simp_all add: tracks_def)
  have i: "i < length cs" using queue_inv_front(1)[OF inv fi] .
  have iq: "i < length (g_queue s)" using find_filep_Some[OF fi] by simp
  have big: "len = - 1 \<Longrightarrow> 8 \<le> unat len"
    using word_le_nat_alt[of "8 :: 32 word" "- 1"] by simp
  have big2: "len = - 1 \<Longrightarrow> unat (x :: 32 word) \<le> unat len" for x
    using word_le_nat_alt[of x "- 1"] by simp
  have keep: "find_filep f ((g_queue s)[i := q']) = Some i" if "filep q' = filep (g_queue s ! i)" for q'
    using find_filep_update_same[OF iq that] fi by simp
  show ?thesis
  proof (cases "cs ! i")
    case Nil
    then have "front (g_queue s ! i) = 0"
      using queue_inv_front(2)[OF inv fi] by (simp add: first_of_def)
    then show ?thesis using get_event_empty[OF fi, of code len] tr Nil by auto
  next
    case (Cons p rest)
    obtain e where e: "events s p = Some e" using queue_inv_first(3)[OF inv i Cons] by blast
    have fr: "front (g_queue s ! i) = p" "p \<noteq> 0" using queue_inv_first[OF inv i Cons] by simp_all
    define hdr where "hdr = word_bytes (code (status (evt_data e))) @ word_bytes (data_len (evt_data e))"
    have hne: "hdr \<noteq> []" unfolding hdr_def by (rule hdr_not_empty)
    have mp: "msgs code s p = hdr #
          (if data_len (evt_data e) = 0 then []
           else [case buffers s (data (evt_data e)) of None \<Rightarrow> [] | Some b \<Rightarrow> b])"
      using e by (simp add: msgs_def hdr_def)
    show ?thesis
    proof (cases "check_header (g_queue s ! i) = 0")
      case ch: True
      show ?thesis
      proof (cases "8 \<le> unat len")
        case False
        then have "lwnl_get_event code f len s = Some (- 1, [], s)"
          using fi fr e ch by (simp add: lwnl_get_event_def Let_def word_less_nat_alt)
        then show ?thesis using tr False big by auto
      next
        case True
        show ?thesis
        proof (cases "data_len (evt_data e) = 0")
          case dl: True
          note g = get_event_header_last[OF inv fi Cons e ch True dl]
          define s' where "s' = released (holders cs p) p e
                   (s\<lparr>g_queue := (g_queue s)[i := (g_queue s ! i)\<lparr>front := flink e\<rparr>]\<rparr>)"
          have res: "lwnl_get_event code f len s = Some (8, hdr, s')"
            using g(1)[of code] dl by (simp add: hdr_def s'_def)
          have inv': "queue_inv s' (cs[i := rest])" using g(2) by (simp add: s'_def)
          have sv: "survives s s'" using g(3) by (simp add: s'_def)
          have gq: "g_queue s' = (g_queue s)[i := (g_queue s ! i)\<lparr>front := flink e\<rparr>]"
            by (simp add: s'_def)
          have tr': "tracks f i s' (cs[i := rest])"
            using inv' f0 keep[of "(g_queue s ! i)\<lparr>front := flink e\<rparr>"] gq by (simp add: tracks_def)
          have live: "\<forall>a\<in>set rest. \<exists>e. events s' a = Some e"
            using queue_inv_live[OF inv', of i] i by simp
          have "owed code s' (g_queue s' ! i) rest = owed code s ((g_queue s ! i)\<lparr>front := flink e\<rparr>) rest"
            using owed_survives[OF sv live, of "g_queue s' ! i" "(g_queue s ! i)\<lparr>front := flink e\<rparr>" code]
              gq iq by simp
          also have "\<dots> = concat (map (msgs code s) rest)"
            using ch by (intro owed_phase0) simp
          finally have o': "owed code s' (g_queue s' ! i) (cs[i := rest] ! i) =
              concat (map (msgs code s) rest)"
            using i by simp
          have o: "owed code s (g_queue s ! i) (cs ! i) = hdr # concat (map (msgs code s) rest)"
            using Cons ch mp dl by (simp add: owed_def)
          show ?thesis
            using res tr' o o' hne
            by (intro exI[of _ 8] exI[of _ hdr] exI[of _ s'] exI[of _ "cs[i := rest]"]) simp
        next
          case False
          note g = get_event_header_more[OF inv fi Cons e ch True False]
          define s' where "s' = s\<lparr>g_queue := (g_queue s)[i := (g_queue s ! i)\<lparr>check_header := 1\<rparr>]\<rparr>"
          have res: "lwnl_get_event code f len s = Some (8, hdr, s')"
            using g(1)[of code] by (simp add: hdr_def s'_def)
          have inv': "queue_inv s' cs" using g(2) by (simp add: s'_def)
          have tr': "tracks f i s' cs"
            using inv' f0 keep[of "(g_queue s ! i)\<lparr>check_header := 1\<rparr>"] by (simp add: tracks_def s'_def)
          have ms: "msgs code s' a = msgs code s a" for a
            by (rule msgs_eqI) (simp_all add: s'_def)
          then have msf: "msgs code s' = msgs code s" by (intro ext)
          have gqi: "check_header (g_queue s' ! i) = 1" using iq by (simp add: s'_def)
          have o': "owed code s' (g_queue s' ! i) (cs ! i) =
              tl (msgs code s p) @ concat (map (msgs code s) rest)"
            using Cons gqi by (simp add: owed_def msf)
          have o: "owed code s (g_queue s ! i) (cs ! i) =
              msgs code s p @ concat (map (msgs code s) rest)"
            using Cons ch by (simp add: owed_def)
          show ?thesis
            using res tr' o o' hne mp
            by (intro exI[of _ 8] exI[of _ hdr] exI[of _ s'] exI[of _ cs]) simp
        qed
      qed
    next
      case ch: False
      have slot: "slot_ok (events s) (g_queue s ! i) (p # rest)"
        using queue_inv_slot[OF inv i] Cons by simp
      then have dl: "data_len (evt_data e) \<noteq> 0"
        using ch e by (simp add: slot_ok_def first_of_def)
      show ?thesis
      proof (cases "unat (data_len (evt_data e)) \<le> unat len")
        case False
        then have "lwnl_get_event code f len s = Some (- 1, [], s)"
          using fi fr e ch by (simp add: lwnl_get_event_def Let_def word_less_nat_alt)
        then show ?thesis using tr False big2 by auto
      next
        case True
        note g = get_event_payload[OF inv fi Cons e ch True]
        define s' where "s' = released (holders cs p) p e
          (s\<lparr>g_queue := (g_queue s)[i := (g_queue s ! i)\<lparr>check_header := 0, front := flink e\<rparr>]\<rparr>)"
        obtain bs where bs: "buffers s (data (evt_data e)) = Some bs"
            "length bs = unat (data_len (evt_data e))"
            "lwnl_get_event code f len s = Some (sint (data_len (evt_data e)), bs, s')"
          using g(1)[of code] by (auto simp: s'_def)
        have bne: "bs \<noteq> []" using bs(2) dl by (auto simp: unat_eq_zero)
        have inv': "queue_inv s' (cs[i := rest])" using g(2) by (simp add: s'_def)
        have sv: "survives s s'" using g(3) by (simp add: s'_def)
        have gq: "g_queue s' = (g_queue s)[i := (g_queue s ! i)\<lparr>check_header := 0, front := flink e\<rparr>]"
          by (simp add: s'_def)
        have tr': "tracks f i s' (cs[i := rest])"
          using inv' f0 keep[of "(g_queue s ! i)\<lparr>check_header := 0, front := flink e\<rparr>"] gq
          by (simp add: tracks_def)
        have live: "\<forall>a\<in>set rest. \<exists>e. events s' a = Some e"
          using queue_inv_live[OF inv', of i] i by simp
        have "owed code s' (g_queue s' ! i) rest =
              owed code s ((g_queue s ! i)\<lparr>check_header := 0, front := flink e\<rparr>) rest"
          using owed_survives[OF sv live, of "g_queue s' ! i"
              "(g_queue s ! i)\<lparr>check_header := 0, front := flink e\<rparr>" code] gq iq by simp
        also have "\<dots> = concat (map (msgs code s) rest)"
          by (intro owed_phase0) simp
        finally have o': "owed code s' (g_queue s' ! i) (cs[i := rest] ! i) =
            concat (map (msgs code s) rest)"
          using i by simp
        have o: "owed code s (g_queue s ! i) (cs ! i) = bs # concat (map (msgs code s) rest)"
          using Cons ch mp dl bs(1) by (simp add: owed_def)
        show ?thesis
          using bs(3) tr' o o' bne
          by (intro exI[of _ "sint (data_len (evt_data e))"] exI[of _ bs] exI[of _ s']
              exI[of _ "cs[i := rest]"]) simp
      qed
    qed
  qed
qed

lemma register_step:
  assumes tr: "tracks f i s cs" and g: "g \<noteq> 0" "g \<noteq> f"
  shows "tracks f i (snd (lwnl_add_listener g s)) cs"
    and "owed code (snd (lwnl_add_listener g s)) (g_queue (snd (lwnl_add_listener g s)) ! i) (cs ! i)
           = owed code s (g_queue s ! i) (cs ! i)"
proof -
  have inv: "queue_inv s cs" and f0: "f \<noteq> 0" and fi: "find_filep f (g_queue s) = Some i"
    using tr by (simp_all add: tracks_def)
  define s' where "s' = snd (lwnl_add_listener g s)"
  have inv': "queue_inv s' cs" unfolding s'_def using add_listener_inv[OF inv g(1)] .
  have both: "tracks f i s' cs \<and>
      owed code s' (g_queue s' ! i) (cs ! i) = owed code s (g_queue s ! i) (cs ! i)"
  proof (cases "find_filep 0 (g_queue s)")
    case None
    then have "s' = s" by (simp add: s'_def lwnl_add_listener_def)
    then show ?thesis using tr by simp
  next
    case (Some j)
    have fj: "filep (g_queue s ! j) = 0" using find_filep_Some[OF Some] by simp
    have ji: "j \<noteq> i" using fj find_filep_Some[OF fi] f0 by auto
    have gq: "g_queue s' = (g_queue s)[j := (g_queue s ! j)\<lparr>filep := g\<rparr>]"
      using Some by (simp add: s'_def lwnl_add_listener_def)
    have sv: "survives s s'"
      using Some by (simp add: s'_def lwnl_add_listener_def survives_def)
    have inv'': "queue_inv s' (cs[j := cs ! j])" using inv' by simp
    have fq: "filep ((g_queue s ! j)\<lparr>filep := g\<rparr>) \<noteq> f" "filep (g_queue s ! j) \<noteq> f"
      using g(2) fj f0 by simp_all
    note t1 = tracks_other_slot(1)[OF tr inv'' sv gq ji fq]
    note t2 = tracks_other_slot(2)[OF tr inv'' sv gq ji fq, where code=code]
    show ?thesis using t1 t2 by simp
  qed
  show "tracks f i (snd (lwnl_add_listener g s)) cs" using both by (simp add: s'_def)
  show "owed code (snd (lwnl_add_listener g s)) (g_queue (snd (lwnl_add_listener g s)) ! i) (cs ! i)
           = owed code s (g_queue s ! i) (cs ! i)"
    using both by (simp add: s'_def)
qed

lemma deregister_step:
  assumes tr: "tracks f i s cs" and g: "g \<noteq> 0" "g \<noteq> f"
  shows "\<exists>r s' cs'. lwnl_remove_listener g s = Some (r, s') \<and> tracks f i s' cs' \<and>
           owed code s' (g_queue s' ! i) (cs' ! i) = owed code s (g_queue s ! i) (cs ! i)"
proof -
  have inv: "queue_inv s cs" and f0: "f \<noteq> 0" and fi: "find_filep f (g_queue s) = Some i"
    using tr by (simp_all add: tracks_def)
  obtain s' where s': "lwnl_remove_listener g s = Some (0, s')" "survives s s'"
      "queue_inv s' (case find_filep g (g_queue s) of None \<Rightarrow> cs | Some j \<Rightarrow> cs[j := []])"
    using remove_listener_inv[OF inv g(1)] by blast
  show ?thesis
  proof (cases "find_filep g (g_queue s)")
    case None
    then have "s' = s" using s'(1) by (simp add: lwnl_remove_listener_def)
    then show ?thesis using s'(1) tr by auto
  next
    case (Some j)
    have fj: "filep (g_queue s ! j) = g" using find_filep_Some[OF Some] by simp
    have ji: "j \<noteq> i" using fj find_filep_Some[OF fi] g(2) by auto
    have gq: "g_queue s' = (g_queue s)[j := \<lparr>filep = 0, check_header = 0, front = 0, rear = 0\<rparr>]"
      using s'(1) Some by (auto simp: lwnl_remove_listener_def split: option.splits)
    have inv': "queue_inv s' (cs[j := []])" using s'(3) Some by simp
    have fq: "filep \<lparr>filep = 0, check_header = 0, front = 0, rear = 0\<rparr> \<noteq> f"
      "filep (g_queue s ! j) \<noteq> f"
      using f0 fj g(2) by simp_all
    note t1 = tracks_other_slot(1)[OF tr inv' s'(2) gq ji fq]
    note t2 = tracks_other_slot(2)[OF tr inv' s'(2) gq ji fq, where code=code]
    show ?thesis using s'(1) t1 t2 by blast
  qed
qed

text \<open>Every call keeps the balance: what \<open>f\<close> has read and is still owed is what it was
  owed before and what the call emitted.\<close>

lemma step_owed:
  assumes tr: "tracks f i s cs" and ok: "op_ok rsz f s oper"
  shows "\<exists>out s' cs'. apply_op rsz code oper s = Some (out, s') \<and> tracks f i s' cs' \<and>
           obs f oper out @ owed code s' (g_queue s' ! i) (cs' ! i) =
             owed code s (g_queue s ! i) (cs ! i) @ concat (map (wire code) (emitted oper))"
proof (cases oper)
  case (Emit type buffer m_evt m_out)
  obtain r s' cs' where "lwnl_add_event rsz type buffer m_evt m_out s = Some (r, s')"
      "tracks f i s' cs'"
      "owed code s' (g_queue s' ! i) (cs' ! i) =
             owed code s (g_queue s ! i) (cs ! i) @
             concat (map (wire code) (emitted (Emit type buffer m_evt m_out)))"
    using emit_step[OF tr, of rsz type buffer m_evt m_out code] ok Emit by blast
  then show ?thesis using Emit by (intro exI[of _ "[]"] exI[of _ s'] exI[of _ cs']) simp
next
  case (Read g len)
  show ?thesis
  proof (cases "g = f")
    case True
    obtain r out s' cs' where "lwnl_get_event code f len s = Some (r, out, s')"
        "tracks f i s' cs'"
        "(if out \<noteq> [] then [out] else []) @ owed code s' (g_queue s' ! i) (cs' ! i) =
             owed code s (g_queue s ! i) (cs ! i)"
      using read_own_step[OF tr, of code len] by blast
    then show ?thesis using Read True by (intro exI[of _ out] exI[of _ s'] exI[of _ cs']) simp
  next
    case False
    obtain r out s' cs' where "lwnl_get_event code g len s = Some (r, out, s')"
        "tracks f i s' cs'"
        "owed code s' (g_queue s' ! i) (cs' ! i) = owed code s (g_queue s ! i) (cs ! i)"
      using read_other_step[OF tr False, of code len] by blast
    then show ?thesis using Read False by (intro exI[of _ out] exI[of _ s'] exI[of _ cs']) simp
  qed
next
  case (Register g)
  then have g: "g \<noteq> 0" "g \<noteq> f" using ok by simp_all
  show ?thesis
    using register_step(1)[OF tr g] register_step(2)[OF tr g, where code=code] Register
    by (intro exI[of _ "[]"] exI[of _ "snd (lwnl_add_listener g s)"] exI[of _ cs]) simp
next
  case (Deregister g)
  then have g: "g \<noteq> 0" "g \<noteq> f" using ok by simp_all
  obtain r s' cs' where "lwnl_remove_listener g s = Some (r, s')" "tracks f i s' cs'"
      "owed code s' (g_queue s' ! i) (cs' ! i) = owed code s (g_queue s ! i) (cs ! i)"
    using deregister_step[OF tr g, of code] by blast
  then show ?thesis using Deregister by (intro exI[of _ "[]"] exI[of _ s'] exI[of _ cs']) simp
qed

lemma wires_Cons: "wires code (oper # ops) = concat (map (wire code) (emitted oper)) @ wires code ops"
  by (simp add: wires_def)

lemma run_owed:
  assumes "tracks f i s cs" and "valid_run rsz code f ops s"
  shows "\<exists>outs s1 cs1. observe rsz code f ops s = Some (outs, s1) \<and> tracks f i s1 cs1 \<and>
           outs @ owed code s1 (g_queue s1 ! i) (cs1 ! i) =
             owed code s (g_queue s ! i) (cs ! i) @ wires code ops"
  using assms
proof (induction ops arbitrary: s cs)
  case Nil
  then show ?case by (auto simp: wires_def)
next
  case (Cons oper ops)
  have ok: "op_ok rsz f s oper" using Cons.prems(2) by simp
  obtain out s' cs' where st: "apply_op rsz code oper s = Some (out, s')" "tracks f i s' cs'"
      "obs f oper out @ owed code s' (g_queue s' ! i) (cs' ! i) =
         owed code s (g_queue s ! i) (cs ! i) @ concat (map (wire code) (emitted oper))"
    using step_owed[OF Cons.prems(1) ok, of code] by blast
  have v: "valid_run rsz code f ops s'" using Cons.prems(2) st(1) by simp
  obtain outs s1 cs1 where ih: "observe rsz code f ops s' = Some (outs, s1)" "tracks f i s1 cs1"
      "outs @ owed code s1 (g_queue s1 ! i) (cs1 ! i) =
         owed code s' (g_queue s' ! i) (cs' ! i) @ wires code ops"
    using Cons.IH[OF st(2) v] by blast
  have "(obs f oper out @ outs) @ owed code s1 (g_queue s1 ! i) (cs1 ! i) =
          obs f oper out @ owed code s' (g_queue s' ! i) (cs' ! i) @ wires code ops"
    using ih(3) by simp
  also have "\<dots> = owed code s (g_queue s ! i) (cs ! i) @ wires code (oper # ops)"
    using st(3) by (simp add: wires_Cons)
  finally have bal: "(obs f oper out @ outs) @ owed code s1 (g_queue s1 ! i) (cs1 ! i) =
      owed code s (g_queue s ! i) (cs ! i) @ wires code (oper # ops)" .
  have "observe rsz code f (oper # ops) s = Some (obs f oper out @ outs, s1)"
    using st(1) ih(1) by simp
  then show ?case using ih(2) bal by blast
qed

lemma owed_empty:
  assumes inv: "queue_inv s cs" and i: "i < length cs"
    and o: "owed code s (g_queue s ! i) (cs ! i) = []"
  shows "cs ! i = []"
proof (cases "cs ! i")
  case Nil
  then show ?thesis .
next
  case (Cons p rest)
  obtain e where e: "events s p = Some e" using queue_inv_first(3)[OF inv i Cons] by blast
  have slot: "slot_ok (events s) (g_queue s ! i) (p # rest)"
    using queue_inv_slot[OF inv i] Cons by simp
  have "(if check_header (g_queue s ! i) = 0 then msgs code s p else tl (msgs code s p)) \<noteq> []"
    using slot e by (auto simp: slot_ok_def first_of_def msgs_def)
  then have False using o Cons by (simp add: owed_def)
  then show ?thesis ..
qed

text \<open>Reads with a buffer of the largest size hand out everything that is owed.\<close>

lemma drain_owed:
  assumes "tracks f i s cs" and "length (owed code s (g_queue s ! i) (cs ! i)) = k"
  shows "\<exists>s2 cs2. observe rsz code f (replicate k (Read f (- 1))) s =
             Some (owed code s (g_queue s ! i) (cs ! i), s2) \<and>
           tracks f i s2 cs2 \<and> cs2 ! i = []"
  using assms
proof (induction k arbitrary: s cs)
  case 0
  have inv: "queue_inv s cs" and fi: "find_filep f (g_queue s) = Some i"
    using "0.prems"(1) by (simp_all add: tracks_def)
  have i: "i < length cs" using queue_inv_front(1)[OF inv fi] .
  have "cs ! i = []" using owed_empty[OF inv i] "0.prems"(2) by simp
  then show ?case using "0.prems" by auto
next
  case (Suc k)
  have inv: "queue_inv s cs" and fi: "find_filep f (g_queue s) = Some i"
    using Suc.prems(1) by (simp_all add: tracks_def)
  have ne: "cs ! i \<noteq> []" using Suc.prems(2) by (auto simp: owed_def)
  obtain r out s' cs' where st: "lwnl_get_event code f (- 1) s = Some (r, out, s')"
      "tracks f i s' cs'"
      "(if out \<noteq> [] then [out] else []) @ owed code s' (g_queue s' ! i) (cs' ! i) =
             owed code s (g_queue s ! i) (cs ! i)"
      "out \<noteq> []"
    using read_own_step[OF Suc.prems(1), of code "- 1"] ne by blast
  have o: "out # owed code s' (g_queue s' ! i) (cs' ! i) = owed code s (g_queue s ! i) (cs ! i)"
    using st(3,4) by simp
  then have "length (owed code s' (g_queue s' ! i) (cs' ! i)) = k"
    using Suc.prems(2) by (metis length_Cons old.nat.inject)
  from Suc.IH[OF st(2) this]
  obtain s2 cs2 where ih: "observe rsz code f (replicate k (Read f (- 1))) s' =
             Some (owed code s' (g_queue s' ! i) (cs' ! i), s2)"
      "tracks f i s2 cs2" "cs2 ! i = []"
    by blast
  have "observe rsz code f (replicate (Suc k) (Read f (- 1))) s =
          Some (owed code s (g_queue s ! i) (cs ! i), s2)"
    using st(1,4) ih(1) o by simp
  then show ?case using ih(2,3) by blast
qed

subsection \<open>Example states and further facts about reachable states\<close>

lemma reach_listener:
  "reachable n s \<Longrightarrow> f \<noteq> 0 \<Longrightarrow> reachable n (snd (lwnl_add_listener f s))"
  by (metis reach_add_listener prod.collapse)

lemma init_2: "lwnl_queue_initialize (boot 2) =
  \<lparr>g_queue = [\<lparr>filep = 0, check_header = 0, front = 0, rear = 0\<rparr>,
              \<lparr>filep = 0, check_header = 0, front = 0, rear = 0\<rparr>],
   g_connected = 0, events = Map.empty, buffers = Map.empty\<rparr>"
  by (simp add: lwnl_queue_initialize_def boot_def numeral_2_eq_2)

lemma listener_5: "snd (lwnl_add_listener 5 (lwnl_queue_initialize (boot 2))) =
  \<lparr>g_queue = [\<lparr>filep = 5, check_header = 0, front = 0, rear = 0\<rparr>,
              \<lparr>filep = 0, check_header = 0, front = 0, rear = 0\<rparr>],
   g_connected = 1, events = Map.empty, buffers = Map.empty\<rparr>"
  by (simp add: init_2 lwnl_add_listener_def)

lemma sint8_eq_1: "(sint (x :: 8 word) = 1) = (x = 1)"
proof
  assume "sint x = 1"
  then have "sint x = sint (1 :: 8 word)" by simp
  then show "x = 1" by (rule signed_word_eqI)
next
  assume "x = 1" then show "sint x = 1" by simp
qed

lemma queue_inv_pending:
  assumes inv: "queue_inv s cs" and fi: "find_filep f (g_queue s) = Some i"
    and fr: "front (g_queue s ! i) \<noteq> 0"
  shows "\<exists>rest. cs ! i = front (g_queue s ! i) # rest"
proof -
  have "front (g_queue s ! i) = first_of (cs ! i)" using queue_inv_front(2)[OF inv fi] .
  then show ?thesis using fr by (cases "cs ! i") (simp_all add: first_of_def)
qed

lemma refs_last_holder:
  assumes "heap_ok h b cs" and "h p = Some e"
  shows "(holders cs p = 1) = (refs e = 1)"
  using heap_ok_refs[OF assms] sint8_eq_1[of "refs e"] by simp

lemma copy_scan_info_inv:
  assumes inv: "queue_inv s cs" and m: "m = 0 \<or> buffers s m = None"
    and cp: "priv_lwnl_copy_scan_info rsz m xs s = Some (res, out, s1)"
  shows "queue_inv s1 cs" and "events s1 = events s" and "g_queue s1 = g_queue s"
    and "g_connected s1 = g_connected s"
proof -
  have "s1 = s \<or> (m \<noteq> 0 \<and> (\<exists>b. s1 = s\<lparr>buffers := (buffers s)(m \<mapsto> b)\<rparr>))"
    using cp by (auto simp: priv_lwnl_copy_scan_info_def Let_def split: if_splits option.splits)
  then show "queue_inv s1 cs" "events s1 = events s" "g_queue s1 = g_queue s"
    "g_connected s1 = g_connected s"
    using inv m new_buffer_inv[OF inv] by auto
qed

lemma queue_inv_chain:
  assumes "queue_inv s cs" and "i < length cs"
  shows "is_chain (events s) (front (g_queue s ! i)) (cs ! i)"
  using heap_ok_chain[OF queue_inv_heap[OF assms(1)] assms(2)] queue_inv_slot[OF assms]
  by (simp add: slot_ok_def)

lemma add_event_returns:
  assumes inv: "queue_inv s cs" and mal: "malloc_ok s m_evt m_out"
    and rec: "type = LWNL_SCAN_DONE \<and> m_evt \<noteq> 0 \<and> m_out \<noteq> 0 \<longrightarrow>
       (\<forall>x\<in>set buffer. length x = rsz) \<and> rsz * length buffer < 2 ^ 31"
  shows "\<exists>r s'. lwnl_add_event rsz type buffer m_evt m_out s = Some (r, s')"
proof (cases "m_evt = 0")
  case True
  then show ?thesis by (simp add: lwnl_add_event_def)
next
  case m0: False
  have fr: "events s m_evt = None" "buffers s m_evt = None"
    using mal m0 by (auto simp: malloc_ok_def fresh_def)
  have plain: "\<exists>s'. link_event m_evt \<lparr>status = k, data = 0, data_len = 0\<rparr> s = Some (0, s')" for k
    using link_event_inv[OF inv fr(1) m0 payload_ok_null, of k] by auto
  show ?thesis
  proof (cases "type = LWNL_UNKNOWN")
    case True
    then show ?thesis using m0 by (simp add: lwnl_add_event_def)
  next
    case nu: False
    show ?thesis
    proof (cases "type = LWNL_SCAN_DONE")
      case False
      then show ?thesis using add_event_plain[OF m0 False nu, of rsz buffer m_out s] plain by metis
    next
      case sd: True
      show ?thesis
      proof (cases "m_out = 0")
        case True
        then show ?thesis using add_event_scan_failed[OF m0, of rsz buffer s] sd plain by metis
      next
        case False
        then have wf: "\<forall>x\<in>set buffer. length x = rsz" "rsz * length buffer < 2 ^ 31"
          using rec sd m0 by simp_all
        have fo: "buffers s m_out = None" "m_out \<noteq> m_evt"
          using mal False by (auto simp: malloc_ok_def fresh_def)
        define n' where "n' = rsz * length buffer"
        define d where "d = \<lparr>status = LWNL_SCAN_DONE, data = m_out, data_len = of_nat n'\<rparr>"
        define s1 where "s1 = s\<lparr>buffers := (buffers s)(m_out \<mapsto> concat buffer)\<rparr>"
        have inv1: "queue_inv s1 cs" unfolding s1_def using new_buffer_inv[OF inv fo(1)] .
        have e1: "events s1 m_evt = None" using fr(1) by (simp add: s1_def)
        have "length (concat buffer) = n'"
          unfolding n'_def using wf(1) by (rule length_concat_uniform)
        moreover have "n' < 2 ^ 31" using wf(2) by (simp add: n'_def)
        then have "unat (of_nat n' :: 32 word) = n'" by (rule unat_of_nat_small)
        ultimately have po: "payload_ok (buffers s1) d"
          using False by (simp add: payload_ok_def d_def s1_def)
        have un: "\<forall>a e. events s1 a = Some e \<longrightarrow> data d \<noteq> 0 \<longrightarrow> data (evt_data e) \<noteq> data d"
        proof (intro allI impI)
          fix a e assume "events s1 a = Some e"
          then have ea: "events s a = Some e" by (simp add: s1_def)
          show "data (evt_data e) \<noteq> data d"
          proof (cases "data (evt_data e) = 0")
            case True
            then show ?thesis using False by (simp add: d_def)
          next
            case nz: False
            then obtain bs where "buffers s (data (evt_data e)) = Some bs"
              using payload_live[OF queue_inv_heap[OF inv] ea] by blast
            then show ?thesis using fo(1) by (auto simp: d_def)
          qed
        qed
        obtain s' where "link_event m_evt d s1 = Some (0, s')"
          using link_event_inv[OF inv1 e1 m0 po un] by blast
        then show ?thesis
          using add_event_scan_done[OF m0 False wf, of s] sd
          by (simp add: d_def s1_def n'_def del: of_nat_mult)
      qed
    qed
  qed
qed

lemma add_event_keeps_nodes:
  assumes inv: "queue_inv s cs" and mal: "malloc_ok s m_evt m_out"
    and res: "lwnl_add_event rsz type buffer m_evt m_out s = Some (r, s')"
    and live: "events s a \<noteq> None"
  shows "events s' a \<noteq> None"
proof -
  obtain cs' where "keeps s cs s' cs'" using add_event_inv[OF inv mal res] by blast
  then show ?thesis using live by (auto simp: keeps_def)
qed

lemma empty_front:
  assumes inv: "queue_inv s cs" and fi: "find_filep f (g_queue s) = Some i"
  shows "(front (g_queue s ! i) = 0) = (cs ! i = [])"
proof -
  have i: "i < length cs" using queue_inv_front(1)[OF inv fi] .
  have "front (g_queue s ! i) = first_of (cs ! i)" using queue_inv_front(2)[OF inv fi] .
  moreover have "cs ! i \<noteq> [] \<Longrightarrow> first_of (cs ! i) \<noteq> 0"
    using chain_first_not_null[OF heap_ok_chain[OF queue_inv_heap[OF inv] i]] .
  ultimately show ?thesis by (cases "cs ! i = []") (simp_all add: first_of_def)
qed

lemma check_queue_owed:
  assumes tr: "tracks f i s cs"
  shows "lwnl_check_queue f s = (if owed code s (g_queue s ! i) (cs ! i) = [] then 0 else 1)"
proof -
  have inv: "queue_inv s cs" and fi: "find_filep f (g_queue s) = Some i"
    using tr by (simp_all add: tracks_def)
  have i: "i < length cs" using queue_inv_front(1)[OF inv fi] .
  have "(owed code s (g_queue s ! i) (cs ! i) = []) = (cs ! i = [])"
    using owed_empty[OF inv i, of code] by (auto simp: owed_def)
  then show ?thesis using empty_front[OF inv fi] fi by (simp add: lwnl_check_queue_def)
qed

section \<open>The claims\<close>

text \<open>
  C1.  Reference counts, in every state \<open>s\<close> that \<open>lwnl_queue_initialize\<close>, emits, reads,
  registrations and deregistrations can reach (at most 127 slots, so that the count fits
  \<open>int8_t\<close>).  The chain at the \<open>front\<close> of every slot consists of live nodes: no node is
  freed while a queue references it.  The \<open>refs\<close> of every live node is the number of
  slots whose chain holds it.  Every read and every deregistration from \<open>s\<close> returns, the
  deregistration with 0, and destroys a live node exactly when that number goes from
  positive to zero; the payload is destroyed with its node and at no other time.  An
  emit destroys no node, and it returns when its scan list, if it is copied, is a list of
  records of \<open>rsz\<close> bytes whose total size fits an \<open>int\<close>.
\<close>

theorem refcount_gates_destruction:
  assumes "reachable n s" and "n \<le> 127"
  shows "(\<forall>i<n. \<exists>c. is_chain (events s) (front (g_queue s ! i)) c) \<and>
         (\<forall>a e. events s a = Some e \<longrightarrow> sint (refs e) = int (held s a)) \<and>
         (\<forall>code f len. \<exists>r out s'.
            lwnl_get_event code f len s = Some (r, out, s') \<and> frees_unheld s s') \<and>
         (\<forall>f. f \<noteq> 0 \<longrightarrow>
            (\<exists>s'. lwnl_remove_listener f s = Some (0, s') \<and> frees_unheld s s')) \<and>
         (\<forall>rsz type buffer m_evt m_out r s'.
            malloc_ok s m_evt m_out \<longrightarrow>
            lwnl_add_event rsz type buffer m_evt m_out s = Some (r, s') \<longrightarrow>
            frees_unheld s s' \<and> (\<forall>a. events s a \<noteq> None \<longrightarrow> events s' a \<noteq> None)) \<and>
         (\<forall>rsz type buffer m_evt m_out.
            malloc_ok s m_evt m_out \<longrightarrow>
            (type = LWNL_SCAN_DONE \<and> m_evt \<noteq> 0 \<and> m_out \<noteq> 0 \<longrightarrow>
               (\<forall>x\<in>set buffer. length x = rsz) \<and> rsz * length buffer < 2 ^ 31) \<longrightarrow>
            (\<exists>r s'. lwnl_add_event rsz type buffer m_evt m_out s = Some (r, s')))"
proof -
  obtain cs where inv: "queue_inv s cs" and len: "length cs = n"
    using reachable_inv[OF assms] by blast
  have c1: "\<forall>i<n. \<exists>c. is_chain (events s) (front (g_queue s ! i)) c"
    using queue_inv_chain[OF inv] len by blast
  have c2: "\<forall>a e. events s a = Some e \<longrightarrow> sint (refs e) = int (held s a)"
    using heap_ok_refs[OF queue_inv_heap[OF inv]] held_holders[OF inv] by simp
  have c3: "\<exists>r out s'. lwnl_get_event code f len s = Some (r, out, s') \<and> frees_unheld s s'"
    for code f len
  proof -
    obtain r out s' where g: "lwnl_get_event code f len s = Some (r, out, s')"
      using get_event_inv[OF inv, of code f len] by blast
    then show ?thesis using get_event_frees[OF inv g] by blast
  qed
  have c4: "\<exists>s'. lwnl_remove_listener f s = Some (0, s') \<and> frees_unheld s s'" if f: "f \<noteq> 0" for f
  proof -
    obtain s' where g: "lwnl_remove_listener f s = Some (0, s')"
      using remove_listener_inv[OF inv f] by blast
    then show ?thesis using remove_listener_frees[OF inv f g] by blast
  qed
  have c5: "\<forall>rsz type buffer m_evt m_out r s'.
            malloc_ok s m_evt m_out \<longrightarrow>
            lwnl_add_event rsz type buffer m_evt m_out s = Some (r, s') \<longrightarrow>
            frees_unheld s s' \<and> (\<forall>a. events s a \<noteq> None \<longrightarrow> events s' a \<noteq> None)"
    using add_event_frees[OF inv] add_event_keeps_nodes[OF inv] by blast
  have c6: "\<forall>rsz type buffer m_evt m_out.
            malloc_ok s m_evt m_out \<longrightarrow>
            (type = LWNL_SCAN_DONE \<and> m_evt \<noteq> 0 \<and> m_out \<noteq> 0 \<longrightarrow>
               (\<forall>x\<in>set buffer. length x = rsz) \<and> rsz * length buffer < 2 ^ 31) \<longrightarrow>
            (\<exists>r s'. lwnl_add_event rsz type buffer m_evt m_out s = Some (r, s'))"
    using add_event_returns[OF inv] by blast
  show ?thesis
    apply (intro conjI)
         apply (rule c1)
        apply (rule c2)
       apply (intro allI, rule c3)
      apply (intro allI impI, erule c4)
     apply (rule c5)
    apply (rule c6)
    done
qed

theorem refcount_gates_destruction_witness:
  "let hp = [1 \<mapsto> \<lparr>flink = 0,
                     evt_data = \<lparr>status = LWNL_SCAN_DONE, data = 2, data_len = 4\<rparr>,
                     refs = 2\<rparr>];
       hp' = [1 \<mapsto> \<lparr>flink = 0,
                      evt_data = \<lparr>status = LWNL_SCAN_DONE, data = 2, data_len = 4\<rparr>,
                      refs = 1\<rparr>];
       a4 = \<lparr>g_queue = [\<lparr>filep = 5, check_header = 1, front = 1, rear = 1\<rparr>,
                         \<lparr>filep = 6, check_header = 0, front = 1, rear = 1\<rparr>],
             g_connected = 2, events = hp, buffers = [2 \<mapsto> [1, 2, 3, 4]]\<rparr>;
       a5 = \<lparr>g_queue = [\<lparr>filep = 5, check_header = 0, front = 0, rear = 1\<rparr>,
                         \<lparr>filep = 6, check_header = 0, front = 1, rear = 1\<rparr>],
             g_connected = 2, events = hp', buffers = [2 \<mapsto> [1, 2, 3, 4]]\<rparr>;
       a6 = \<lparr>g_queue = [\<lparr>filep = 5, check_header = 0, front = 0, rear = 1\<rparr>,
                         \<lparr>filep = 0, check_header = 0, front = 0, rear = 0\<rparr>],
             g_connected = 1, events = Map.empty, buffers = Map.empty\<rparr>;
       b6 = \<lparr>g_queue = [\<lparr>filep = 5, check_header = 0, front = 0, rear = 1\<rparr>,
                         \<lparr>filep = 6, check_header = 1, front = 1, rear = 1\<rparr>],
             g_connected = 2, events = hp', buffers = [2 \<mapsto> [1, 2, 3, 4]]\<rparr>;
       b7 = \<lparr>g_queue = [\<lparr>filep = 5, check_header = 0, front = 0, rear = 1\<rparr>,
                         \<lparr>filep = 6, check_header = 0, front = 0, rear = 1\<rparr>],
             g_connected = 2, events = Map.empty, buffers = Map.empty\<rparr>
   in
     lwnl_get_event example_code 5 8
       (snd (the (lwnl_add_event 4 LWNL_SCAN_DONE [[1, 2, 3, 4]] 1 2
          (snd (lwnl_add_listener 6
             (snd (lwnl_add_listener 5 (lwnl_queue_initialize (boot 2)))))))))
       = Some (8, [6, 0, 0, 0, 4, 0, 0, 0], a4) \<and>
     held a4 1 = 2 \<and>
     lwnl_get_event example_code 5 4 a4 = Some (4, [1, 2, 3, 4], a5) \<and>
     held a5 1 = 1 \<and>
     lwnl_remove_listener 6 a5 = Some (0, a6) \<and>
     held a6 1 = 0 \<and>
     lwnl_get_event example_code 6 8 a5 = Some (8, [6, 0, 0, 0, 4, 0, 0, 0], b6) \<and>
     held b6 1 = 1 \<and>
     lwnl_get_event example_code 6 4 b6 = Some (4, [1, 2, 3, 4], b7) \<and>
     held b7 1 = 0"
proof -
  define hp where "hp = [(1::nat) \<mapsto> \<lparr>flink = 0,
                     evt_data = \<lparr>status = LWNL_SCAN_DONE, data = 2, data_len = 4\<rparr>,
                     refs = 2\<rparr>]"
  define hp' where "hp' = [(1::nat) \<mapsto> \<lparr>flink = 0,
                      evt_data = \<lparr>status = LWNL_SCAN_DONE, data = 2, data_len = 4\<rparr>,
                      refs = 1\<rparr>]"
  define s2 where "s2 = snd (lwnl_add_listener 6
             (snd (lwnl_add_listener 5 (lwnl_queue_initialize (boot 2)))))"
  define s3 where "s3 =
     \<lparr>g_queue = [\<lparr>filep = 5, check_header = 0, front = 1, rear = 1\<rparr>,
                 \<lparr>filep = 6, check_header = 0, front = 1, rear = 1\<rparr>],
      g_connected = 2, events = hp, buffers = [2 \<mapsto> [1, 2, 3, 4]]\<rparr>"
  define a4 where "a4 =
     \<lparr>g_queue = [\<lparr>filep = 5, check_header = 1, front = 1, rear = 1\<rparr>,
                 \<lparr>filep = 6, check_header = 0, front = 1, rear = 1\<rparr>],
      g_connected = 2, events = hp, buffers = [2 \<mapsto> [1, 2, 3, 4]]\<rparr>"
  define a5 where "a5 =
     \<lparr>g_queue = [\<lparr>filep = 5, check_header = 0, front = 0, rear = 1\<rparr>,
                 \<lparr>filep = 6, check_header = 0, front = 1, rear = 1\<rparr>],
      g_connected = 2, events = hp', buffers = [2 \<mapsto> [1, 2, 3, 4]]\<rparr>"
  define a6 where "a6 =
     \<lparr>g_queue = [\<lparr>filep = 5, check_header = 0, front = 0, rear = 1\<rparr>,
                 \<lparr>filep = 0, check_header = 0, front = 0, rear = 0\<rparr>],
      g_connected = 1, events = (Map.empty :: addr \<rightharpoonup> lwnl_event),
      buffers = (Map.empty :: addr \<rightharpoonup> byte list)\<rparr>"
  define b6 where "b6 =
     \<lparr>g_queue = [\<lparr>filep = 5, check_header = 0, front = 0, rear = 1\<rparr>,
                 \<lparr>filep = 6, check_header = 1, front = 1, rear = 1\<rparr>],
      g_connected = 2, events = hp', buffers = [2 \<mapsto> [1, 2, 3, 4]]\<rparr>"
  define b7 where "b7 =
     \<lparr>g_queue = [\<lparr>filep = 5, check_header = 0, front = 0, rear = 1\<rparr>,
                 \<lparr>filep = 6, check_header = 0, front = 0, rear = 1\<rparr>],
      g_connected = 2, events = (Map.empty :: addr \<rightharpoonup> lwnl_event),
      buffers = (Map.empty :: addr \<rightharpoonup> byte list)\<rparr>"
  have l2: "s2 =
     \<lparr>g_queue = [\<lparr>filep = 5, check_header = 0, front = 0, rear = 0\<rparr>,
                 \<lparr>filep = 6, check_header = 0, front = 0, rear = 0\<rparr>],
      g_connected = 2, events = Map.empty, buffers = Map.empty\<rparr>"
    unfolding s2_def listener_5 by (simp add: lwnl_add_listener_def)
  have r2: "reachable 2 s2"
    unfolding s2_def by (intro reach_listener reach_init) simp_all
  have e3: "lwnl_add_event 4 LWNL_SCAN_DONE [[1, 2, 3, 4]] 1 2 s2 = Some (0, s3)"
    by (simp add: l2 s3_def hp_def lwnl_add_event_def link_event_def priv_lwnl_add_event_def
        copy_scan_info_ok)
  have r3: "reachable 2 s3"
    by (rule reach_add_event[OF r2 _ e3]) (simp add: l2 malloc_ok_def fresh_def)
  have g4: "lwnl_get_event example_code 5 8 s3 = Some (8, [6, 0, 0, 0, 4, 0, 0, 0], a4)"
    by (simp add: s3_def a4_def hp_def lwnl_get_event_def word_bytes_def)
  have r4: "reachable 2 a4" by (rule reach_get_event[OF r3 g4])
  have g5: "lwnl_get_event example_code 5 4 a4 = Some (4, [1, 2, 3, 4], a5)"
    by (simp add: a4_def a5_def hp_def hp'_def lwnl_get_event_def payload_bytes_def
        advance_front_def priv_lwnl_remove_event_def Let_def word_sless_alt)
  have r5: "reachable 2 a5" by (rule reach_get_event[OF r4 g5])
  have d6: "lwnl_remove_listener 6 a5 = Some (0, a6)"
    by (simp add: a5_def a6_def hp'_def lwnl_remove_listener_def release_from.simps[of 1]
        release_from.simps[of "Suc 0"] release_from.simps[of 0] priv_lwnl_remove_event_def Let_def word_sless_alt)
  have h6: "lwnl_get_event example_code 6 8 a5 = Some (8, [6, 0, 0, 0, 4, 0, 0, 0], b6)"
    by (simp add: a5_def b6_def hp'_def lwnl_get_event_def word_bytes_def)
  have q6: "reachable 2 b6" by (rule reach_get_event[OF r5 h6])
  have h7: "lwnl_get_event example_code 6 4 b6 = Some (4, [1, 2, 3, 4], b7)"
    by (simp add: b6_def b7_def hp'_def lwnl_get_event_def payload_bytes_def
        advance_front_def priv_lwnl_remove_event_def Let_def word_sless_alt)
  have live: "events a4 1 = Some \<lparr>flink = 0,
                     evt_data = \<lparr>status = LWNL_SCAN_DONE, data = 2, data_len = 4\<rparr>,
                     refs = 2\<rparr>"
    "events a5 1 = Some \<lparr>flink = 0,
                     evt_data = \<lparr>status = LWNL_SCAN_DONE, data = 2, data_len = 4\<rparr>,
                     refs = 1\<rparr>"
    "events b6 1 = Some \<lparr>flink = 0,
                     evt_data = \<lparr>status = LWNL_SCAN_DONE, data = 2, data_len = 4\<rparr>,
                     refs = 1\<rparr>"
    "events a6 1 = None" "events b7 1 = None"
    by (simp_all add: a4_def a5_def a6_def b6_def b7_def hp_def hp'_def)
  note t4 = refcount_gates_destruction[OF r4]
  note t5 = refcount_gates_destruction[OF r5]
  note t6 = refcount_gates_destruction[OF q6]
  have k4: "held a4 1 = 2" using t4 live(1) by fastforce
  have k5: "held a5 1 = 1" using t5 live(2) by fastforce
  have k6: "held b6 1 = 1" using t6 live(3) by fastforce
  have "\<exists>s'. lwnl_remove_listener 6 a5 = Some (0, s') \<and> frees_unheld a5 s'"
    using t5 by simp
  then have "frees_unheld a5 a6" using d6 by simp
  then have k7: "held a6 1 = 0" using live(2,4) by (simp add: frees_unheld_def)
  have "\<exists>r out s'. lwnl_get_event example_code 6 4 b6 = Some (r, out, s') \<and> frees_unheld b6 s'"
    using t6 by simp
  then have "frees_unheld b6 b7" using h7 by simp
  then have k8: "held b7 1 = 0" using live(3,5) by (simp add: frees_unheld_def)
  show ?thesis
    using g4 k4 g5 k5 d6 k7 h6 k6 h7 k8 e3
    unfolding Let_def hp_def[symmetric] hp'_def[symmetric]
    by (simp add: s2_def[symmetric] s3_def a4_def a5_def a6_def b6_def b7_def)
qed

text \<open>
  C2.  No event is lost.  Listener \<open>f\<close> is registered in a reachable state (at most 127
  slots) and nothing is queued for it.  From there any run is made in which \<open>f\<close> stays
  registered: emits, reads of \<open>f\<close> and of others with any buffer size, and others that
  register and deregister.  Then the reads of \<open>f\<close> during the run, followed by some
  more reads of \<open>f\<close> with a buffer of the largest size until a read returns 0, have
  copied out exactly \<open>wires code ops\<close>: for every emitted event, in emission order and
  once, its header of 8 bytes and then, if its payload is not empty, its payload.
\<close>

theorem no_event_loss:
  assumes "reachable n s" and "n \<le> 127" and "f \<noteq> 0"
    and "find_filep f (g_queue s) = Some i" and "front (g_queue s ! i) = 0"
    and "valid_run rsz code f ops s"
  shows "\<exists>outs s1 k outs' s2.
           observe rsz code f ops s = Some (outs, s1) \<and>
           observe rsz code f (replicate k (Read f (- 1))) s1 = Some (outs', s2) \<and>
           outs @ outs' = wires code ops \<and>
           lwnl_get_event code f (- 1) s2 = Some (0, [], s2)"
proof -
  obtain cs where inv: "queue_inv s cs" using reachable_inv[OF assms(1,2)] by blast
  have tr: "tracks f i s cs" using inv assms(3,4) by (simp add: tracks_def)
  have "cs ! i = []" using empty_front[OF inv assms(4)] assms(5) by simp
  then have o0: "owed code s (g_queue s ! i) (cs ! i) = []" by (simp add: owed_def)
  obtain outs s1 cs1 where r: "observe rsz code f ops s = Some (outs, s1)" "tracks f i s1 cs1"
      "outs @ owed code s1 (g_queue s1 ! i) (cs1 ! i) = wires code ops"
    using run_owed[OF tr assms(6)] o0 by auto
  obtain s2 cs2 where d: "observe rsz code f
        (replicate (length (owed code s1 (g_queue s1 ! i) (cs1 ! i))) (Read f (- 1))) s1 =
          Some (owed code s1 (g_queue s1 ! i) (cs1 ! i), s2)"
      "tracks f i s2 cs2" "cs2 ! i = []"
    using drain_owed[OF r(2) refl] by blast
  have inv2: "queue_inv s2 cs2" and f2: "find_filep f (g_queue s2) = Some i"
    using d(2) by (simp_all add: tracks_def)
  have "front (g_queue s2 ! i) = 0" using empty_front[OF inv2 f2] d(3) by simp
  then have "lwnl_get_event code f (- 1) s2 = Some (0, [], s2)"
    using get_event_empty[OF f2] by simp
  then show ?thesis using r(1,3) d(1) by blast
qed

theorem no_event_loss_witness:
  "\<exists>outs s1 k outs' s2.
     observe 2 example_code 5
       [Emit LWNL_STA_CONNECTED [] 1 0, Read 5 8, Emit LWNL_SCAN_DONE [[1, 2], [3, 4]] 2 3]
       (snd (lwnl_add_listener 5 (lwnl_queue_initialize (boot 2)))) = Some (outs, s1) \<and>
     observe 2 example_code 5 (replicate k (Read 5 (- 1))) s1 = Some (outs', s2) \<and>
     outs @ outs' = [[0, 0, 0, 0, 0, 0, 0, 0], [6, 0, 0, 0, 4, 0, 0, 0], [1, 2, 3, 4]] \<and>
     lwnl_get_event example_code 5 (- 1) s2 = Some (0, [], s2)"
proof -
  define s0 where "s0 = snd (lwnl_add_listener 5 (lwnl_queue_initialize (boot 2)))"
  have r: "reachable 2 s0" unfolding s0_def by (rule reach_listener[OF reach_init]) simp
  have f: "find_filep 5 (g_queue s0) = Some 0" "front (g_queue s0 ! 0) = 0"
    by (simp_all add: s0_def listener_5)
  have v: "valid_run 2 example_code 5
       [Emit LWNL_STA_CONNECTED [] 1 0, Read 5 8, Emit LWNL_SCAN_DONE [[1, 2], [3, 4]] 2 3] s0"
    by (simp add: s0_def listener_5 malloc_ok_def fresh_def lwnl_add_event_def link_event_def
        priv_lwnl_add_event_def lwnl_get_event_def advance_front_def priv_lwnl_remove_event_def
        word_bytes_def Let_def copy_scan_info_ok)
  have w: "wires example_code
       [Emit LWNL_STA_CONNECTED [] 1 0, Read 5 8, Emit LWNL_SCAN_DONE [[1, 2], [3, 4]] 2 3] =
       [[0, 0, 0, 0, 0, 0, 0, 0], [6, 0, 0, 0, 4, 0, 0, 0], [1, 2, 3, 4]]"
    by (simp add: wires_def wire_def word_bytes_def)
  show ?thesis
    using no_event_loss[OF r _ _ f v] w by (simp add: s0_def)
qed

text \<open>
  C3.  An emit while no slot has a listener.  The node is linked into no queue, as the
  claim says: the table is unchanged.  But the node is not freed: \<open>_lwnl_add_event\<close>
  returns 0 without having stored the node anywhere, \<open>lwnl_add_event\<close> frees the node
  only when \<open>_lwnl_add_event\<close> fails, and so the node stays allocated with \<open>refs = 0\<close>
  and nothing points to it.  Here: two free slots, the allocator returns address 1.
\<close>

theorem emit_without_listener_leaks:
  "lwnl_add_event 4 LWNL_STA_CONNECTED [] 1 0 (lwnl_queue_initialize (boot 2)) =
     Some (0,
       \<lparr>g_queue = [\<lparr>filep = 0, check_header = 0, front = 0, rear = 0\<rparr>,
                   \<lparr>filep = 0, check_header = 0, front = 0, rear = 0\<rparr>],
        g_connected = 0,
        events = [1 \<mapsto> \<lparr>flink = 0,
                         evt_data = \<lparr>status = LWNL_STA_CONNECTED, data = 0, data_len = 0\<rparr>,
                         refs = 0\<rparr>],
        buffers = Map.empty\<rparr>)"
  by (simp add: init_2 lwnl_add_event_def link_event_def priv_lwnl_add_event_def)

text \<open>
  C4, as stated, fails for an identity that has no slot: the loop of \<open>lwnl_get_event\<close>
  runs to its end and the function returns \<open>-1\<close>, its error code, not 0.  Here: no
  listener is registered and \<open>filep\<close> 7 reads with a buffer of 8 bytes.
\<close>

theorem get_event_unregistered_counterexample:
  "find_filep 7 (g_queue (lwnl_queue_initialize (boot 2))) = None \<and>
   lwnl_get_event example_code 7 8 (lwnl_queue_initialize (boot 2)) =
     Some (- 1, [], lwnl_queue_initialize (boot 2))"
  by (simp add: init_2 lwnl_get_event_def)

text \<open>
  C4, amended.  A read for a listener whose slot has no node at its front returns 0,
  copies nothing and changes nothing; a read for an identity that has no slot returns
  \<open>-1\<close>, copies nothing and changes nothing.
\<close>

theorem get_event_nothing_to_read:
  "(find_filep f (g_queue s) = Some i \<and> front (g_queue s ! i) = 0 \<longrightarrow>
      lwnl_get_event code f len s = Some (0, [], s)) \<and>
   (find_filep f (g_queue s) = None \<longrightarrow> lwnl_get_event code f len s = Some (- 1, [], s))"
  by (simp add: lwnl_get_event_def)

theorem get_event_nothing_to_read_witness:
  "lwnl_get_event example_code 5 8 (snd (lwnl_add_listener 5 (lwnl_queue_initialize (boot 2)))) =
     Some (0, [], snd (lwnl_add_listener 5 (lwnl_queue_initialize (boot 2)))) \<and>
   lwnl_get_event example_code 7 8 (snd (lwnl_add_listener 5 (lwnl_queue_initialize (boot 2)))) =
     Some (- 1, [], snd (lwnl_add_listener 5 (lwnl_queue_initialize (boot 2))))"
  using get_event_nothing_to_read
      [of 5 "snd (lwnl_add_listener 5 (lwnl_queue_initialize (boot 2)))" 0 example_code 8]
    get_event_nothing_to_read
      [of 7 "snd (lwnl_add_listener 5 (lwnl_queue_initialize (boot 2)))" 0 example_code 8]
  by (simp add: listener_5)

text \<open>
  C5.  The header read.  In a reachable state (at most 127 slots) the listener \<open>f\<close> has
  slot \<open>i\<close>, the slot awaits a header (\<open>check_header = 0\<close>), the event \<open>e\<close> at address
  \<open>p\<close> is at its front, and the buffer has at least 8 bytes.  Then \<open>lwnl_get_event\<close>
  returns 8 and has written the 4 bytes of the kind followed by the 4 bytes of
  \<open>data_len\<close>.  With a non-zero \<open>data_len\<close> the only change of state is
  \<open>check_header = 1\<close> in that slot: \<open>front\<close> and the reference count stay.  With
  \<open>data_len = 0\<close>, in that same call, \<open>front\<close> moves to \<open>e.flink\<close>, \<open>check_header\<close> stays
  0 and the count, which was positive, goes down by one; when that makes it zero
  (\<open>refs = 1\<close> before) the node is freed, and with it its buffer if \<open>data\<close> is not
  \<open>NULL\<close>.
\<close>

theorem read_header_phase:
  assumes "reachable n s" and "n \<le> 127"
    and "find_filep f (g_queue s) = Some i"
    and "check_header (g_queue s ! i) = 0"
    and "front (g_queue s ! i) = p" and "p \<noteq> 0" and "events s p = Some e"
    and "8 \<le> unat len"
  shows "length (word_bytes (code (status (evt_data e)))) = 4 \<and>
         length (word_bytes (data_len (evt_data e))) = 4 \<and>
         0 < sint (refs e) \<and>
         (data_len (evt_data e) \<noteq> 0 \<longrightarrow>
            lwnl_get_event code f len s =
              Some (8, word_bytes (code (status (evt_data e))) @ word_bytes (data_len (evt_data e)),
                    s\<lparr>g_queue := (g_queue s)[i := (g_queue s ! i)\<lparr>check_header := 1\<rparr>]\<rparr>)) \<and>
         (data_len (evt_data e) = 0 \<longrightarrow>
            lwnl_get_event code f len s =
              Some (8, word_bytes (code (status (evt_data e))) @ word_bytes (data_len (evt_data e)),
                    s\<lparr>g_queue := (g_queue s)[i := (g_queue s ! i)\<lparr>front := flink e\<rparr>],
                      events := (if refs e = 1 then (events s)(p := None)
                                 else (events s)(p \<mapsto> e\<lparr>refs := refs e - 1\<rparr>)),
                      buffers := (if refs e = 1 \<and> data (evt_data e) \<noteq> 0
                                  then (buffers s)(data (evt_data e) := None)
                                  else buffers s)\<rparr>))"
proof -
  obtain cs where inv: "queue_inv s cs" using reachable_inv[OF assms(1,2)] by blast
  obtain rest where ci: "cs ! i = p # rest"
    using queue_inv_pending[OF inv assms(3)] assms(5,6) by auto
  have i: "i < length cs" using queue_inv_front(1)[OF inv assms(3)] .
  have hok: "heap_ok (events s) (buffers s) cs" using inv by (rule queue_inv_heap)
  have "p \<notin> set rest"
    using heap_ok_chain[OF hok i] ci is_chain_head_notin[of "events s" p rest]
    by (simp add: first_of_def)
  then have "1 \<le> holders cs p" using holders_pop(2)[OF i ci] by simp
  then have pos: "0 < sint (refs e)" using heap_ok_refs[OF hok assms(7)] by simp
  have k: "(holders cs p = 1) = (refs e = 1)" using refs_last_holder[OF hok assms(7)] .
  have more: "data_len (evt_data e) \<noteq> 0 \<Longrightarrow>
      lwnl_get_event code f len s =
        Some (8, word_bytes (code (status (evt_data e))) @ word_bytes (data_len (evt_data e)),
              s\<lparr>g_queue := (g_queue s)[i := (g_queue s ! i)\<lparr>check_header := 1\<rparr>]\<rparr>)"
    using get_event_header_more(1)[OF inv assms(3) ci assms(7,4,8)] .
  have last: "data_len (evt_data e) = 0 \<Longrightarrow>
      lwnl_get_event code f len s =
        Some (8, word_bytes (code (status (evt_data e))) @ word_bytes (data_len (evt_data e)),
              s\<lparr>g_queue := (g_queue s)[i := (g_queue s ! i)\<lparr>front := flink e\<rparr>],
                events := (if refs e = 1 then (events s)(p := None)
                           else (events s)(p \<mapsto> e\<lparr>refs := refs e - 1\<rparr>)),
                buffers := (if refs e = 1 \<and> data (evt_data e) \<noteq> 0
                            then (buffers s)(data (evt_data e) := None)
                            else buffers s)\<rparr>)"
  proof -
    assume z: "data_len (evt_data e) = 0"
    show ?thesis
      using get_event_header_last(1)[OF inv assms(3) ci assms(7,4,8) z, of code] z k
      by (simp add: released_def)
  qed
  show ?thesis using pos more last by (simp add: word_bytes_def)
qed

theorem read_header_phase_witness:
  "lwnl_get_event example_code 5 8
     (snd (the (lwnl_add_event 4 LWNL_STA_DISCONNECTED [] 1 0
        (snd (lwnl_add_listener 5 (lwnl_queue_initialize (boot 2))))))) =
   Some (8, [2, 0, 0, 0, 0, 0, 0, 0],
     \<lparr>g_queue = [\<lparr>filep = 5, check_header = 0, front = 0, rear = 1\<rparr>,
                 \<lparr>filep = 0, check_header = 0, front = 0, rear = 0\<rparr>],
      g_connected = 1, events = Map.empty, buffers = Map.empty\<rparr>) \<and>
   lwnl_get_event example_code 5 8
     (snd (the (lwnl_add_event 4 LWNL_SCAN_DONE [[1, 2, 3, 4]] 1 2
        (snd (lwnl_add_listener 5 (lwnl_queue_initialize (boot 2))))))) =
   Some (8, [6, 0, 0, 0, 4, 0, 0, 0],
     \<lparr>g_queue = [\<lparr>filep = 5, check_header = 1, front = 1, rear = 1\<rparr>,
                 \<lparr>filep = 0, check_header = 0, front = 0, rear = 0\<rparr>],
      g_connected = 1,
      events = [1 \<mapsto> \<lparr>flink = 0,
                       evt_data = \<lparr>status = LWNL_SCAN_DONE, data = 2, data_len = 4\<rparr>,
                       refs = 1\<rparr>],
      buffers = [2 \<mapsto> [1, 2, 3, 4]]\<rparr>)"
proof -
  define s1 where "s1 = snd (lwnl_add_listener 5 (lwnl_queue_initialize (boot 2)))"
  define s2 where "s2 =
     \<lparr>g_queue = [\<lparr>filep = 5, check_header = 0, front = 1, rear = 1\<rparr>,
                 \<lparr>filep = 0, check_header = 0, front = 0, rear = 0\<rparr>],
      g_connected = 1,
      events = [1 \<mapsto> \<lparr>flink = 0,
                       evt_data = \<lparr>status = LWNL_STA_DISCONNECTED, data = 0, data_len = 0\<rparr>,
                       refs = 1\<rparr>],
      buffers = Map.empty\<rparr>"
  define s3 where "s3 =
     \<lparr>g_queue = [\<lparr>filep = 5, check_header = 0, front = 1, rear = 1\<rparr>,
                 \<lparr>filep = 0, check_header = 0, front = 0, rear = 0\<rparr>],
      g_connected = 1,
      events = [1 \<mapsto> \<lparr>flink = 0,
                       evt_data = \<lparr>status = LWNL_SCAN_DONE, data = 2, data_len = 4\<rparr>,
                       refs = 1\<rparr>],
      buffers = [2 \<mapsto> [1, 2, 3, 4]]\<rparr>"
  have r1: "reachable 2 s1" unfolding s1_def by (rule reach_listener[OF reach_init]) simp
  have m: "malloc_ok s1 1 0" "malloc_ok s1 1 2"
    by (simp_all add: s1_def listener_5 malloc_ok_def fresh_def)
  have e2: "lwnl_add_event 4 LWNL_STA_DISCONNECTED [] 1 0 s1 = Some (0, s2)"
    by (simp add: s1_def s2_def listener_5 lwnl_add_event_def link_event_def
        priv_lwnl_add_event_def)
  have e3: "lwnl_add_event 4 LWNL_SCAN_DONE [[1, 2, 3, 4]] 1 2 s1 = Some (0, s3)"
    by (simp add: s1_def s3_def listener_5 lwnl_add_event_def link_event_def
        priv_lwnl_add_event_def copy_scan_info_ok)
  have r2: "reachable 2 s2" by (rule reach_add_event[OF r1 m(1) e2])
  have r3: "reachable 2 s3" by (rule reach_add_event[OF r1 m(2) e3])
  have a: "lwnl_get_event example_code 5 8 s2 =
     Some (8, [2, 0, 0, 0, 0, 0, 0, 0],
     \<lparr>g_queue = [\<lparr>filep = 5, check_header = 0, front = 0, rear = 1\<rparr>,
                 \<lparr>filep = 0, check_header = 0, front = 0, rear = 0\<rparr>],
      g_connected = 1, events = Map.empty, buffers = Map.empty\<rparr>)"
    using read_header_phase[OF r2, of 5 0 1
        "\<lparr>flink = 0, evt_data = \<lparr>status = LWNL_STA_DISCONNECTED, data = 0, data_len = 0\<rparr>,
          refs = 1\<rparr>" 8 example_code]
    by (simp add: s2_def word_bytes_def)
  have b: "lwnl_get_event example_code 5 8 s3 =
     Some (8, [6, 0, 0, 0, 4, 0, 0, 0],
     \<lparr>g_queue = [\<lparr>filep = 5, check_header = 1, front = 1, rear = 1\<rparr>,
                 \<lparr>filep = 0, check_header = 0, front = 0, rear = 0\<rparr>],
      g_connected = 1,
      events = [1 \<mapsto> \<lparr>flink = 0,
                       evt_data = \<lparr>status = LWNL_SCAN_DONE, data = 2, data_len = 4\<rparr>,
                       refs = 1\<rparr>],
      buffers = [2 \<mapsto> [1, 2, 3, 4]]\<rparr>)"
    using read_header_phase[OF r3, of 5 0 1
        "\<lparr>flink = 0, evt_data = \<lparr>status = LWNL_SCAN_DONE, data = 2, data_len = 4\<rparr>,
          refs = 1\<rparr>" 8 example_code]
    by (simp add: s3_def word_bytes_def)
  show ?thesis using a b e2 e3 by (simp add: s1_def[symmetric])
qed

text \<open>
  C6.  A read with a buffer that is too small for the current phase fails and changes
  nothing.  The listener's slot is \<open>i\<close> and the event \<open>evt\<close> is at its front.  When
  \<open>check_header\<close> is 0 (the header is due) and \<open>len\<close> is below 8, or when
  \<open>check_header\<close> is not 0 (the payload is due) and \<open>len\<close> is below \<open>data_len\<close>, then
  \<open>lwnl_get_event\<close> returns \<open>-1\<close>, copies no byte to the buffer and returns the state
  as it was: phase, \<open>front\<close> and every reference count included.  The buffer size is
  \<open>len\<close> read as unsigned, as the two comparisons of the source read it.
\<close>

theorem get_event_buffer_too_small:
  assumes "find_filep f (g_queue s) = Some i"
    and "front (g_queue s ! i) \<noteq> 0"
    and "events s (front (g_queue s ! i)) = Some evt"
    and "(check_header (g_queue s ! i) = 0 \<and> unat len < 8) \<or>
         (check_header (g_queue s ! i) \<noteq> 0 \<and> unat len < unat (data_len (evt_data evt)))"
  shows "lwnl_get_event code f len s = Some (- 1, [], s)"
  using assms by (auto simp: lwnl_get_event_def Let_def word_less_nat_alt)

theorem get_event_buffer_too_small_witness:
  "lwnl_get_event (\<lambda>k. 0) 5 7
     \<lparr>g_queue = [\<lparr>filep = 5, check_header = 0, front = 1, rear = 1\<rparr>], g_connected = 1,
      events = [1 \<mapsto> \<lparr>flink = 0,
                       evt_data = \<lparr>status = LWNL_STA_CONNECTED, data = 0, data_len = 0\<rparr>,
                       refs = 1\<rparr>],
      buffers = Map.empty\<rparr>
   = Some (- 1, [],
     \<lparr>g_queue = [\<lparr>filep = 5, check_header = 0, front = 1, rear = 1\<rparr>], g_connected = 1,
      events = [1 \<mapsto> \<lparr>flink = 0,
                       evt_data = \<lparr>status = LWNL_STA_CONNECTED, data = 0, data_len = 0\<rparr>,
                       refs = 1\<rparr>],
      buffers = Map.empty\<rparr>)"
  using get_event_buffer_too_small
    [of 5 "\<lparr>g_queue = [\<lparr>filep = 5, check_header = 0, front = 1, rear = 1\<rparr>], g_connected = 1,
      events = [1 \<mapsto> \<lparr>flink = 0,
                       evt_data = \<lparr>status = LWNL_STA_CONNECTED, data = 0, data_len = 0\<rparr>,
                       refs = 1\<rparr>],
      buffers = Map.empty\<rparr>" 0 _ 7 "\<lambda>k. 0"]
  by simp

text \<open>
  C7.  An emit of \<open>LWNL_SCAN_DONE\<close> whose serializer fails, that is, returns a negative
  value (as it does when its allocation fails).  In a reachable state with at most 127
  slots and with a node allocated for the event, \<open>lwnl_add_event\<close> returns 0.  The node
  it has queued carries \<open>LWNL_SCAN_FAILED\<close> with a \<open>NULL\<close> payload of length 0, and it
  is delivered to every listener: for every slot with a \<open>filep\<close>, the node is the slot's
  \<open>rear\<close> and the last node of the chain that starts at the slot's \<open>front\<close>.
\<close>

theorem scan_failure_is_delivered_as_scan_failed:
  assumes "reachable n s" and "n \<le> 127"
    and "m_evt \<noteq> 0" and "malloc_ok s m_evt m_out"
    and "priv_lwnl_copy_scan_info rsz m_out buffer s = Some (res, out, s1)" and "res < 0"
  shows "\<exists>s'. lwnl_add_event rsz LWNL_SCAN_DONE buffer m_evt m_out s = Some (0, s') \<and>
           (\<exists>e. events s' m_evt = Some e \<and>
                evt_data e = \<lparr>status = LWNL_SCAN_FAILED, data = 0, data_len = 0\<rparr>) \<and>
           (\<forall>i<n. filep (g_queue s ! i) \<noteq> 0 \<longrightarrow>
              filep (g_queue s' ! i) = filep (g_queue s ! i) \<and>
              rear (g_queue s' ! i) = m_evt \<and>
              (\<exists>c. is_chain (events s') (front (g_queue s' ! i)) (c @ [m_evt])))"
proof -
  obtain cs where inv: "queue_inv s cs" and len: "length cs = n"
    using reachable_inv[OF assms(1,2)] by blast
  have fr: "events s m_evt = None"
    using assms(3,4) by (auto simp: malloc_ok_def fresh_def)
  have mo: "m_out = 0 \<or> buffers s m_out = None"
    using assms(4) by (auto simp: malloc_ok_def fresh_def)
  note c = copy_scan_info_inv[OF inv mo assms(5)]
  define d where "d = \<lparr>status = LWNL_SCAN_FAILED, data = 0, data_len = 0\<rparr>"
  have e1: "events s1 m_evt = None" using fr c(2) by simp
  have un: "\<forall>a e. events s1 a = Some e \<longrightarrow> data d \<noteq> 0 \<longrightarrow> data (evt_data e) \<noteq> data d"
    by (simp add: d_def)
  obtain s' where s': "link_event m_evt d s1 = Some (0, s')"
      "queue_inv s' (appended (g_queue s1) cs m_evt)"
      "g_queue s' = map (link_slot m_evt) (g_queue s1)"
      "\<forall>a. map_option evt_data (events s' a) =
            (if a = m_evt then Some d else map_option evt_data (events s1 a))"
    using link_event_inv[OF c(1) e1 assms(3) _ un] by (auto simp: d_def payload_ok_null)
  have res: "lwnl_add_event rsz LWNL_SCAN_DONE buffer m_evt m_out s = Some (0, s')"
    using assms(3,5,6) s'(1) by (simp add: lwnl_add_event_def d_def)
  have lq: "length (g_queue s) = n" using queue_inv_length[OF inv] len by simp
  define cs' where "cs' = appended (g_queue s1) cs m_evt"
  have len': "length cs' = n" using lq len c(3) by (simp add: cs'_def)
  have inv': "queue_inv s' cs'" using s'(2) by (simp add: cs'_def)
  have node: "\<exists>e. events s' m_evt = Some e \<and> evt_data e = d"
    using s'(4) by (cases "events s' m_evt") (auto split: if_splits)
  have slots: "\<forall>i<n. filep (g_queue s ! i) \<noteq> 0 \<longrightarrow>
              filep (g_queue s' ! i) = filep (g_queue s ! i) \<and>
              rear (g_queue s' ! i) = m_evt \<and>
              (\<exists>c. is_chain (events s') (front (g_queue s' ! i)) (c @ [m_evt]))"
  proof (intro allI impI)
    fix i assume i: "i < n" and occ: "filep (g_queue s ! i) \<noteq> 0"
    have ci: "cs' ! i = cs ! i @ [m_evt]"
      using i occ lq len c(3) by (simp add: cs'_def appended_nth)
    have il: "i < length cs'" using i len' by simp
    have ch: "is_chain (events s') (front (g_queue s' ! i)) (cs ! i @ [m_evt])"
      using queue_inv_chain[OF inv' il] ci by simp
    have "slot_ok (events s') (g_queue s' ! i) (cs ! i @ [m_evt])"
      using queue_inv_slot[OF inv' il] ci by simp
    then have "rear (g_queue s' ! i) = m_evt" by (simp add: slot_ok_def)
    moreover have "filep (g_queue s' ! i) = filep (g_queue s ! i)"
      using s'(3) c(3) i lq by simp
    ultimately show "filep (g_queue s' ! i) = filep (g_queue s ! i) \<and>
              rear (g_queue s' ! i) = m_evt \<and>
              (\<exists>c. is_chain (events s') (front (g_queue s' ! i)) (c @ [m_evt]))"
      using ch by blast
  qed
  show ?thesis
    using res node slots unfolding d_def by (intro exI[of _ s'] conjI)
qed

theorem scan_failure_is_delivered_as_scan_failed_witness:
  "lwnl_add_event 4 LWNL_SCAN_DONE [[1, 2, 3, 4]] 1 0
     (snd (lwnl_add_listener 5 (lwnl_queue_initialize (boot 2)))) =
   Some (0,
     \<lparr>g_queue = [\<lparr>filep = 5, check_header = 0, front = 1, rear = 1\<rparr>,
                 \<lparr>filep = 0, check_header = 0, front = 0, rear = 0\<rparr>],
      g_connected = 1,
      events = [1 \<mapsto> \<lparr>flink = 0,
                       evt_data = \<lparr>status = LWNL_SCAN_FAILED, data = 0, data_len = 0\<rparr>,
                       refs = 1\<rparr>],
      buffers = Map.empty\<rparr>)"
proof -
  define s1 where "s1 = snd (lwnl_add_listener 5 (lwnl_queue_initialize (boot 2)))"
  have r1: "reachable 2 s1" unfolding s1_def by (rule reach_listener[OF reach_init]) simp
  have m: "malloc_ok s1 1 0" by (simp add: s1_def listener_5 malloc_ok_def fresh_def)
  have c: "priv_lwnl_copy_scan_info 4 0 [[1, 2, 3, 4]] s1 = Some (- 1, 0, s1)"
    by (rule copy_scan_info_fail)
  show ?thesis
    using scan_failure_is_delivered_as_scan_failed[OF r1 _ _ m c]
    by (simp add: s1_def[symmetric])
      (simp add: s1_def listener_5 lwnl_add_event_def link_event_def priv_lwnl_add_event_def
        copy_scan_info_fail)
qed

text \<open>
  C8.  The serializer \<open>_lwnl_copy_scan_info\<close>, for a scan list of records of \<open>rsz\<close> bytes
  whose total size fits an \<open>int\<close>.  When the allocation succeeds (\<open>m\<close> is not \<open>NULL\<close>) it
  returns \<open>rsz\<close> times the number of records, stores \<open>m\<close> in \<open>*buffer\<close>, and the buffer
  at \<open>m\<close> holds exactly the records one after the other in list order, which are that
  many bytes.  When the allocation fails it returns \<open>-1\<close>, leaves \<open>*buffer\<close> \<open>NULL\<close> and
  writes nothing: the state is unchanged.
\<close>

theorem copy_scan_info_all_or_nothing:
  assumes "\<forall>x\<in>set scan_list. length x = rsz" and "rsz * length scan_list < 2 ^ 31"
  shows "(m \<noteq> 0 \<longrightarrow>
            priv_lwnl_copy_scan_info rsz m scan_list s =
              Some (int (rsz * length scan_list), m,
                    s\<lparr>buffers := (buffers s)(m \<mapsto> concat scan_list)\<rparr>) \<and>
            length (concat scan_list) = length scan_list * rsz) \<and>
         priv_lwnl_copy_scan_info rsz 0 scan_list s = Some (- 1, 0, s)"
  using copy_scan_info_ok[OF _ assms, of m s] copy_scan_info_fail[of rsz scan_list s]
    length_concat_uniform[OF assms(1)]
  by (simp add: mult.commute)

theorem copy_scan_info_all_or_nothing_witness:
  "priv_lwnl_copy_scan_info 2 9 [[1, 2], [3, 4], [5, 6]] (lwnl_queue_initialize (boot 2)) =
     Some (6, 9, (lwnl_queue_initialize (boot 2))\<lparr>buffers := [9 \<mapsto> [1, 2, 3, 4, 5, 6]]\<rparr>) \<and>
   priv_lwnl_copy_scan_info 2 0 [[1, 2], [3, 4], [5, 6]] (lwnl_queue_initialize (boot 2)) =
     Some (- 1, 0, lwnl_queue_initialize (boot 2))"
  using copy_scan_info_all_or_nothing
      [of "[[1, 2], [3, 4], [5, 6]]" 2 9 "lwnl_queue_initialize (boot 2)"]
  by (simp add: init_2)

text \<open>
  C9.  Tail subscription.  In a reachable state (at most 127 slots), whatever was
  emitted before, \<open>f\<close> is not registered and now registers with success, which gives
  the state \<open>s0\<close>.  Then the \<open>front\<close> of its slot is \<open>NULL\<close>, \<open>lwnl_check_queue\<close> is 0 and a
  read returns 0 and copies nothing.  And after any run from \<open>s0\<close> in which \<open>f\<close> stays
  registered, what the reads of \<open>f\<close> have copied out (\<open>outs\<close>) and what is still queued
  for it (\<open>rest\<close>) are together exactly the events that the run itself emitted, in
  order: nothing of an earlier event is ever read; and \<open>lwnl_check_queue\<close> is 0 exactly
  when nothing is left, so it stays 0 as long as the run emits nothing.
\<close>

theorem late_listener_reads_later_events_only:
  assumes "reachable n s" and "n \<le> 127" and "f \<noteq> 0"
    and "find_filep f (g_queue s) = None" and "lwnl_add_listener f s = (0, s0)"
  shows "(\<exists>i. find_filep f (g_queue s0) = Some i \<and> front (g_queue s0 ! i) = 0) \<and>
         lwnl_check_queue f s0 = 0 \<and>
         lwnl_get_event code f len s0 = Some (0, [], s0) \<and>
         (\<forall>ops. valid_run rsz code f ops s0 \<longrightarrow>
            (\<exists>outs s1 rest. observe rsz code f ops s0 = Some (outs, s1) \<and>
               outs @ rest = wires code ops \<and>
               lwnl_check_queue f s1 = (if rest = [] then 0 else 1)))"
proof -
  obtain cs where inv: "queue_inv s cs" using reachable_inv[OF assms(1,2)] by blast
  obtain j where j: "find_filep 0 (g_queue s) = Some j"
    using assms(5) by (cases "find_filep 0 (g_queue s)") (auto simp: lwnl_add_listener_def)
  have s0: "s0 = s\<lparr>g_queue := (g_queue s)[j := (g_queue s ! j)\<lparr>filep := f\<rparr>],
                  g_connected := g_connected s + 1\<rparr>"
    using assms(5) j by (simp add: lwnl_add_listener_def)
  have jl: "j < length (g_queue s)" "filep (g_queue s ! j) = 0"
    using find_filep_Some[OF j] by simp_all
  have jc: "j < length cs" using jl(1) queue_inv_length[OF inv] by simp
  have inv0: "queue_inv s0 cs" using add_listener_inv[OF inv assms(3)] assms(5) by simp
  have "\<forall>k<j. filep (g_queue s0 ! k) \<noteq> f"
    using assms(4) jl(1) by (auto simp: find_filep_None s0)
  then have fi: "find_filep f (g_queue s0) = Some j"
    using jl(1) by (intro find_filep_first) (simp_all add: s0)
  have "slot_ok (events s) (g_queue s ! j) (cs ! j)" using queue_inv_slot[OF inv jc] .
  then have cj: "cs ! j = []" using jl(2) by (auto simp: slot_ok_def)
  have fr: "front (g_queue s0 ! j) = 0" using empty_front[OF inv0 fi] cj by simp
  have tr: "tracks f j s0 cs" using inv0 assms(3) fi by (simp add: tracks_def)
  have o0: "owed code s0 (g_queue s0 ! j) (cs ! j) = []" using cj by (simp add: owed_def)
  have runs: "\<forall>ops. valid_run rsz code f ops s0 \<longrightarrow>
            (\<exists>outs s1 rest. observe rsz code f ops s0 = Some (outs, s1) \<and>
               outs @ rest = wires code ops \<and>
               lwnl_check_queue f s1 = (if rest = [] then 0 else 1))"
  proof (intro allI impI)
    fix ops assume v: "valid_run rsz code f ops s0"
    obtain outs s1 cs1 where r: "observe rsz code f ops s0 = Some (outs, s1)"
        "tracks f j s1 cs1"
        "outs @ owed code s1 (g_queue s1 ! j) (cs1 ! j) = wires code ops"
      using run_owed[OF tr v] o0 by auto
    show "\<exists>outs s1 rest. observe rsz code f ops s0 = Some (outs, s1) \<and>
               outs @ rest = wires code ops \<and>
               lwnl_check_queue f s1 = (if rest = [] then 0 else 1)"
      using r(1,3) check_queue_owed[OF r(2), of code] by blast
  qed
  have "lwnl_check_queue f s0 = 0" using check_queue_owed[OF tr, of code] o0 by simp
  moreover have "lwnl_get_event code f len s0 = Some (0, [], s0)"
    using get_event_empty[OF fi fr] .
  ultimately show ?thesis using fi fr runs by blast
qed

theorem late_listener_reads_later_events_only_witness:
  "lwnl_check_queue 6
     (snd (lwnl_add_listener 6
        (snd (the (lwnl_add_event 4 LWNL_STA_DISCONNECTED [] 1 0
           (snd (lwnl_add_listener 5 (lwnl_queue_initialize (boot 2))))))))) = 0 \<and>
   lwnl_get_event example_code 6 8
     (snd (lwnl_add_listener 6
        (snd (the (lwnl_add_event 4 LWNL_STA_DISCONNECTED [] 1 0
           (snd (lwnl_add_listener 5 (lwnl_queue_initialize (boot 2))))))))) =
     Some (0, [],
       \<lparr>g_queue = [\<lparr>filep = 5, check_header = 0, front = 1, rear = 1\<rparr>,
                   \<lparr>filep = 6, check_header = 0, front = 0, rear = 0\<rparr>],
        g_connected = 2,
        events = [1 \<mapsto> \<lparr>flink = 0,
                         evt_data = \<lparr>status = LWNL_STA_DISCONNECTED, data = 0, data_len = 0\<rparr>,
                         refs = 1\<rparr>],
        buffers = Map.empty\<rparr>) \<and>
   (\<exists>outs s1 rest.
      observe 4 example_code 6 [Read 6 8, Emit LWNL_STA_CONNECTED [] 2 0, Read 6 8]
        (snd (lwnl_add_listener 6
          (snd (the (lwnl_add_event 4 LWNL_STA_DISCONNECTED [] 1 0
             (snd (lwnl_add_listener 5 (lwnl_queue_initialize (boot 2))))))))) =
        Some (outs, s1) \<and>
      outs @ rest = [[0, 0, 0, 0, 0, 0, 0, 0]] \<and>
      lwnl_check_queue 6 s1 = (if rest = [] then 0 else 1))"
proof -
  define s1 where "s1 = snd (lwnl_add_listener 5 (lwnl_queue_initialize (boot 2)))"
  define s2 where "s2 =
     \<lparr>g_queue = [\<lparr>filep = 5, check_header = 0, front = 1, rear = 1\<rparr>,
                 \<lparr>filep = 0, check_header = 0, front = 0, rear = 0\<rparr>],
      g_connected = 1,
      events = [1 \<mapsto> \<lparr>flink = 0,
                       evt_data = \<lparr>status = LWNL_STA_DISCONNECTED, data = 0, data_len = 0\<rparr>,
                       refs = 1\<rparr>],
      buffers = Map.empty\<rparr>"
  define s3 where "s3 =
     \<lparr>g_queue = [\<lparr>filep = 5, check_header = 0, front = 1, rear = 1\<rparr>,
                 \<lparr>filep = 6, check_header = 0, front = 0, rear = 0\<rparr>],
      g_connected = 2,
      events = [1 \<mapsto> \<lparr>flink = 0,
                       evt_data = \<lparr>status = LWNL_STA_DISCONNECTED, data = 0, data_len = 0\<rparr>,
                       refs = 1\<rparr>],
      buffers = Map.empty\<rparr>"
  have r1: "reachable 2 s1" unfolding s1_def by (rule reach_listener[OF reach_init]) simp
  have e: "lwnl_add_event 4 LWNL_STA_DISCONNECTED [] 1 0 s1 = Some (0, s2)"
    by (simp add: s1_def s2_def listener_5 lwnl_add_event_def link_event_def
        priv_lwnl_add_event_def)
  have r2: "reachable 2 s2"
    by (rule reach_add_event[OF r1 _ e]) (simp add: s1_def listener_5 malloc_ok_def fresh_def)
  have n: "find_filep 6 (g_queue s2) = None" by (simp add: s2_def)
  have a: "lwnl_add_listener 6 s2 = (0, s3)" by (simp add: s2_def s3_def lwnl_add_listener_def)
  have v: "valid_run 4 example_code 6 [Read 6 8, Emit LWNL_STA_CONNECTED [] 2 0, Read 6 8] s3"
    by (simp add: s3_def malloc_ok_def fresh_def lwnl_add_event_def link_event_def
        priv_lwnl_add_event_def lwnl_get_event_def advance_front_def priv_lwnl_remove_event_def
        word_bytes_def Let_def)
  have w: "wires example_code [Read 6 8, Emit LWNL_STA_CONNECTED [] 2 0, Read 6 8] =
       [[0, 0, 0, 0, 0, 0, 0, 0]]"
    by (simp add: wires_def wire_def word_bytes_def)
  have t: "(\<exists>i. find_filep 6 (g_queue s3) = Some i \<and> front (g_queue s3 ! i) = 0) \<and>
         lwnl_check_queue 6 s3 = 0 \<and>
         lwnl_get_event example_code 6 8 s3 = Some (0, [], s3) \<and>
         (\<forall>ops. valid_run 4 example_code 6 ops s3 \<longrightarrow>
            (\<exists>outs s1 rest. observe 4 example_code 6 ops s3 = Some (outs, s1) \<and>
               outs @ rest = wires example_code ops \<and>
               lwnl_check_queue 6 s1 = (if rest = [] then 0 else 1)))"
    by (rule late_listener_reads_later_events_only[OF r2 _ _ n a]) simp_all
  have ob: "\<exists>outs s1 rest.
      observe 4 example_code 6 [Read 6 8, Emit LWNL_STA_CONNECTED [] 2 0, Read 6 8] s3 =
        Some (outs, s1) \<and>
      outs @ rest = [[0, 0, 0, 0, 0, 0, 0, 0]] \<and>
      lwnl_check_queue 6 s1 = (if rest = [] then 0 else 1)"
    using t v w by (metis (no_types, lifting))
  have eq: "snd (lwnl_add_listener 6
        (snd (the (lwnl_add_event 4 LWNL_STA_DISCONNECTED [] 1 0
           (snd (lwnl_add_listener 5 (lwnl_queue_initialize (boot 2)))))))) = s3"
    using e a by (simp add: s1_def[symmetric])
  have "lwnl_check_queue 6 s3 = 0 \<and>
        lwnl_get_event example_code 6 8 s3 = Some (0, [], s3) \<and>
        (\<exists>outs s1 rest.
           observe 4 example_code 6 [Read 6 8, Emit LWNL_STA_CONNECTED [] 2 0, Read 6 8] s3 =
             Some (outs, s1) \<and>
           outs @ rest = [[0, 0, 0, 0, 0, 0, 0, 0]] \<and>
           lwnl_check_queue 6 s1 = (if rest = [] then 0 else 1))"
    using t ob by blast
  then show ?thesis unfolding eq unfolding s3_def .
qed

text \<open>
  C10.  \<open>_lwnl_add_event\<close> has no failing return: whenever it returns, it returns 0.
  So \<open>lwnl_add_event\<close> never returns \<open>-2\<close>, the code of its branch for a failed
  append.  And in a reachable state, with up to 127 slots, an emit of a recognized kind
  whose node allocation succeeded does return, and returns 0, whether the allocation
  for the scan payload failed (\<open>m_out = 0\<close>) or not; the scan list then is a list of
  records of \<open>rsz\<close> bytes whose total size fits an \<open>int\<close>.
\<close>

theorem add_event_never_fails_to_append:
  "(priv_lwnl_add_event event s0 = Some (r0, s1) \<longrightarrow> r0 = 0) \<and>
   lwnl_add_event rsz type buffer m_evt m_out s \<noteq> Some (- 2, s2) \<and>
   (reachable n s \<and> n \<le> 127 \<and> m_evt \<noteq> 0 \<and> malloc_ok s m_evt m_out \<and>
    type \<noteq> LWNL_UNKNOWN \<and>
    (type = LWNL_SCAN_DONE \<and> m_out \<noteq> 0 \<longrightarrow>
       (\<forall>x\<in>set buffer. length x = rsz) \<and> rsz * length buffer < 2 ^ 31)
    \<longrightarrow> (\<exists>s'. lwnl_add_event rsz type buffer m_evt m_out s = Some (0, s')))"
proof (intro conjI impI)
  assume "priv_lwnl_add_event event s0 = Some (r0, s1)"
  then show "r0 = 0"
    by (auto simp: priv_lwnl_add_event_def split: option.splits)
next
  have priv: "\<And>e t r t'. priv_lwnl_add_event e t = Some (r, t') \<Longrightarrow> r = 0"
    by (auto simp: priv_lwnl_add_event_def split: option.splits)
  have link: "\<And>m d t t'. link_event m d t \<noteq> Some (- 2, t')"
    using priv by (fastforce simp: link_event_def Let_def split: option.splits if_splits)
  show "lwnl_add_event rsz type buffer m_evt m_out s \<noteq> Some (- 2, s2)"
    using link by (cases type) (auto simp: lwnl_add_event_def split: option.splits if_splits)
next
  assume a: "reachable n s \<and> n \<le> 127 \<and> m_evt \<noteq> 0 \<and> malloc_ok s m_evt m_out \<and>
    type \<noteq> LWNL_UNKNOWN \<and>
    (type = LWNL_SCAN_DONE \<and> m_out \<noteq> 0 \<longrightarrow>
       (\<forall>x\<in>set buffer. length x = rsz) \<and> rsz * length buffer < 2 ^ 31)"
  then obtain cs where inv: "queue_inv s cs" using reachable_inv by blast
  have m0: "m_evt \<noteq> 0" using a by simp
  have mal: "malloc_ok s m_evt m_out" using a by simp
  have fr: "events s m_evt = None" "buffers s m_evt = None"
    using mal m0 by (auto simp: malloc_ok_def fresh_def)
  have plain: "\<And>k. \<exists>s'. link_event m_evt \<lparr>status = k, data = 0, data_len = 0\<rparr> s = Some (0, s')"
  proof -
    fix k
    show "\<exists>s'. link_event m_evt \<lparr>status = k, data = 0, data_len = 0\<rparr> s = Some (0, s')"
      using link_event_inv[OF inv fr(1) m0 payload_ok_null, of k] by auto
  qed
  show "\<exists>s'. lwnl_add_event rsz type buffer m_evt m_out s = Some (0, s')"
  proof (cases "type = LWNL_SCAN_DONE")
    case False
    then show ?thesis using add_event_plain[OF m0 False, of rsz buffer m_out s] a plain by simp
  next
    case sd: True
    show ?thesis
    proof (cases "m_out = 0")
      case True
      then show ?thesis using add_event_scan_failed[OF m0, of rsz buffer s] sd plain by simp
    next
      case False
      then have wf: "\<forall>x\<in>set buffer. length x = rsz" "rsz * length buffer < 2 ^ 31"
        using a sd by simp_all
      have fo: "buffers s m_out = None" "m_out \<noteq> m_evt"
        using mal False by (auto simp: malloc_ok_def fresh_def)
      define n' where "n' = rsz * length buffer"
      define d where "d = \<lparr>status = LWNL_SCAN_DONE, data = m_out, data_len = of_nat n'\<rparr>"
      define s1 where "s1 = s\<lparr>buffers := (buffers s)(m_out \<mapsto> concat buffer)\<rparr>"
      have inv1: "queue_inv s1 cs" unfolding s1_def using new_buffer_inv[OF inv fo(1)] .
      have e1: "events s1 m_evt = None" using fr(1) by (simp add: s1_def)
      have "length (concat buffer) = n'"
        unfolding n'_def using wf(1) by (rule length_concat_uniform)
      moreover have "n' < 2 ^ 31" using wf(2) by (simp add: n'_def)
      then have "unat (of_nat n' :: 32 word) = n'" by (rule unat_of_nat_small)
      ultimately have po: "payload_ok (buffers s1) d"
        using False by (simp add: payload_ok_def d_def s1_def)
      have un: "\<forall>a e. events s1 a = Some e \<longrightarrow> data d \<noteq> 0 \<longrightarrow> data (evt_data e) \<noteq> data d"
      proof (intro allI impI)
        fix a e assume "events s1 a = Some e"
        then have ea: "events s a = Some e" by (simp add: s1_def)
        show "data (evt_data e) \<noteq> data d"
        proof (cases "data (evt_data e) = 0")
          case True
          then show ?thesis using False by (simp add: d_def)
        next
          case nz: False
          then obtain bs where "buffers s (data (evt_data e)) = Some bs"
            using payload_live[OF queue_inv_heap[OF inv] ea] by blast
          then show ?thesis using fo(1) by (auto simp: d_def)
        qed
      qed
      obtain s' where "link_event m_evt d s1 = Some (0, s')"
        using link_event_inv[OF inv1 e1 m0 po un] by blast
      then show ?thesis
        using add_event_scan_done[OF m0 False wf, of s] sd
        by (simp add: d_def s1_def n'_def del: of_nat_mult)
    qed
  qed
qed

theorem add_event_never_fails_to_append_witness:
  "priv_lwnl_add_event 1
     \<lparr>g_queue = [\<lparr>filep = 5, check_header = 0, front = 0, rear = 0\<rparr>], g_connected = 1,
      events = [1 \<mapsto> \<lparr>flink = 0,
                       evt_data = \<lparr>status = LWNL_STA_CONNECTED, data = 0, data_len = 0\<rparr>,
                       refs = 0\<rparr>],
      buffers = Map.empty\<rparr>
   = Some (0,
     \<lparr>g_queue = [\<lparr>filep = 5, check_header = 0, front = 1, rear = 1\<rparr>], g_connected = 1,
      events = [1 \<mapsto> \<lparr>flink = 0,
                       evt_data = \<lparr>status = LWNL_STA_CONNECTED, data = 0, data_len = 0\<rparr>,
                       refs = 1\<rparr>],
      buffers = Map.empty\<rparr>) \<and>
   (\<exists>s'. lwnl_add_event 4 LWNL_SCAN_DONE [[1, 2, 3, 4], [5, 6, 7, 8]] 1 2
            (snd (lwnl_add_listener 5 (lwnl_queue_initialize (boot 2)))) = Some (0, s'))"
proof -
  have r: "reachable 2 (snd (lwnl_add_listener 5 (lwnl_queue_initialize (boot 2))))"
    by (rule reach_listener[OF reach_init]) simp
  have m: "malloc_ok (snd (lwnl_add_listener 5 (lwnl_queue_initialize (boot 2)))) 1 2"
    by (simp add: listener_5 malloc_ok_def fresh_def)
  have p: "priv_lwnl_add_event 1
     \<lparr>g_queue = [\<lparr>filep = 5, check_header = 0, front = 0, rear = 0\<rparr>], g_connected = 1,
      events = [1 \<mapsto> \<lparr>flink = 0,
                       evt_data = \<lparr>status = LWNL_STA_CONNECTED, data = 0, data_len = 0\<rparr>,
                       refs = 0\<rparr>],
      buffers = Map.empty\<rparr>
   = Some (0,
     \<lparr>g_queue = [\<lparr>filep = 5, check_header = 0, front = 1, rear = 1\<rparr>], g_connected = 1,
      events = [1 \<mapsto> \<lparr>flink = 0,
                       evt_data = \<lparr>status = LWNL_STA_CONNECTED, data = 0, data_len = 0\<rparr>,
                       refs = 1\<rparr>],
      buffers = Map.empty\<rparr>)"
    by (simp add: priv_lwnl_add_event_def)
  show ?thesis
    using add_event_never_fails_to_append
      [of 1 _ 0 _ 4 LWNL_SCAN_DONE "[[1, 2, 3, 4], [5, 6, 7, 8]]" 1 2
          "snd (lwnl_add_listener 5 (lwnl_queue_initialize (boot 2)))" _ 2] r m p
    by simp
qed

end
